theory Spec2Isabelle
  imports Complex_Main
begin

section \<open>Thor: a shallow embedding of the request-processing engine\<close>

text \<open>
  The Python sources are modelled function by function. Python strings are
  \<^typ>\<open>string\<close> (one \<^typ>\<open>char\<close> per character, so the model covers 8-bit
  text), Python's unbounded integers are \<^typ>\<open>int\<close>, a raised exception is the
  \<open>Inl\<close> branch of a sum, and the messages a coroutine passes to \<open>send\<close> are
  collected in a list, in the order of the calls.
\<close>

subsection \<open>Exceptions (thor/exceptions.py and the built-in ones the code lets escape)\<close>

datatype error =
    NotFound
  | MethodNotAllowed
  | PayloadTooLarge
  | RoutingError
  | ReError
  | ValueError
  | IndexError
  | RuntimeError

subsection \<open>ASGI messages and responses (thor/response.py)\<close>

text \<open>
  A JSON document; \<open>JSONResponse.render\<close> hands it to \<open>json.dumps\<close>, whose
  output bytes are kept symbolic as \<open>Json v\<close>.
\<close>

datatype jval = JStr string | JInt int | JObj "(string \<times> jval) list"

datatype payload = Raw string | Json jval

text \<open>
  \<open>{"type": "http.response.start", "status": s, "headers": hs}\<close> is \<open>Start s hs\<close>,
  \<open>{"type": "http.response.body", "body": b}\<close> is \<open>Body b\<close>; any other message
  type is \<open>Other\<close>.
\<close>

datatype message =
    Start int "(string \<times> string) list"
  | Body payload
  | Other string

fun digit_char :: "nat \<Rightarrow> char" where
  "digit_char n = ''0123456789'' ! (n mod 10)"

fun str_nat :: "nat \<Rightarrow> string" where
  "str_nat n = (if n < 10 then [digit_char n] else str_nat (n div 10) @ [digit_char n])"

declare str_nat.simps [simp del]

text \<open>Python's \<open>str\<close> on an integer.\<close>

definition str_int :: "int \<Rightarrow> string" where
  "str_int i = (if i < 0 then CHR ''-'' # str_nat (nat (- i)) else str_nat (nat i))"

fun to_lower_char :: "char \<Rightarrow> char" where
  "to_lower_char c =
     (case map_of (zip ''ABCDEFGHIJKLMNOPQRSTUVWXYZ'' ''abcdefghijklmnopqrstuvwxyz'') c of
        Some d \<Rightarrow> d | None \<Rightarrow> c)"

fun to_upper_char :: "char \<Rightarrow> char" where
  "to_upper_char c =
     (case map_of (zip ''abcdefghijklmnopqrstuvwxyz'' ''ABCDEFGHIJKLMNOPQRSTUVWXYZ'') c of
        Some d \<Rightarrow> d | None \<Rightarrow> c)"

definition lower :: "string \<Rightarrow> string" where
  "lower s = map to_lower_char s"

text \<open>
  \<open>Response._build_headers\<close>: the content type first, then the custom headers
  with lower-cased names, then one \<open>set-cookie\<close> per pending cookie.
  \<open>Response.__call__\<close> sends the start message and one body message.
\<close>

definition build_headers ::
  "string \<Rightarrow> (string \<times> string) list \<Rightarrow> string list \<Rightarrow> (string \<times> string) list" where
  "build_headers content_type hdrs cookies =
     (''content-type'', content_type)
       # map (\<lambda>(n, v). (lower n, v)) hdrs
       @ map (\<lambda>c. (''set-cookie'', c)) cookies"

text \<open>
  \<open>JSONResponse(content, status_code, headers)(send)\<close>: the media type is
  \<open>application/json\<close>, so \<open>content_type\<close> adds the charset.
\<close>

definition json_response :: "jval \<Rightarrow> int \<Rightarrow> (string \<times> string) list \<Rightarrow> message list" where
  "json_response content status_code hdrs =
     [Start status_code (build_headers ''application/json; charset=utf-8'' hdrs []),
      Body (Json content)]"

subsection \<open>String helpers of the Python built-ins the code uses\<close>

text \<open>\<open>s.startswith(p)\<close>.\<close>

fun starts_with :: "string \<Rightarrow> string \<Rightarrow> bool" where
  "starts_with s [] = True"
| "starts_with [] (p # ps) = False"
| "starts_with (x # xs) (p # ps) = (x = p \<and> starts_with xs ps)"

text \<open>\<open>s.endswith(p)\<close>.\<close>

definition ends_with :: "string \<Rightarrow> string \<Rightarrow> bool" where
  "ends_with s p = starts_with (rev s) (rev p)"

text \<open>\<open>needle in s\<close> on strings.\<close>

fun contains :: "string \<Rightarrow> string \<Rightarrow> bool" where
  "contains [] needle = (needle = [])"
| "contains (x # xs) needle = (starts_with (x # xs) needle \<or> contains xs needle)"

text \<open>\<open>s.split(c)\<close> for a one-character separator: empty pieces are kept.\<close>

fun split_on :: "char \<Rightarrow> string \<Rightarrow> string list" where
  "split_on c [] = [[]]"
| "split_on c (x # xs) =
     (if x = c then [] # split_on c xs
      else (case split_on c xs of
              y # ys \<Rightarrow> (x # y) # ys
            | [] \<Rightarrow> [[x]]))"

text \<open>\<open>sep.join(parts)\<close>.\<close>

fun join :: "string \<Rightarrow> string list \<Rightarrow> string" where
  "join sep [] = []"
| "join sep [p] = p"
| "join sep (p # q # ps) = p @ sep @ join sep (q # ps)"

text \<open>\<open>s.capitalize()\<close>: the first character upper-cased, the rest lower-cased.\<close>

definition capitalize :: "string \<Rightarrow> string" where
  "capitalize s = (case s of [] \<Rightarrow> [] | c # cs \<Rightarrow> to_upper_char c # map to_lower_char cs)"

text \<open>\<open>key, _, value = item.partition(c)\<close>, for an item that contains \<open>c\<close>.\<close>

definition partition_at :: "char \<Rightarrow> string \<Rightarrow> string \<times> string" where
  "partition_at c s = (takeWhile (\<lambda>x. x \<noteq> c) s, drop 1 (dropWhile (\<lambda>x. x \<noteq> c) s))"

subsection \<open>Python's integer parser\<close>

definition is_digit :: "char \<Rightarrow> bool" where
  "is_digit c = (c \<in> set ''0123456789'')"

definition digit_val :: "char \<Rightarrow> nat" where
  "digit_val c = (case map_of (zip ''0123456789'' [0, 1, 2, 3, 4, 5, 6, 7, 8, 9]) c of
                    Some d \<Rightarrow> d | None \<Rightarrow> 0)"

definition nat_of_digits :: "string \<Rightarrow> nat" where
  "nat_of_digits s = foldl (\<lambda>acc c. 10 * acc + digit_val c) 0 s"

definition is_space :: "char \<Rightarrow> bool" where
  "is_space c = (c \<in> {CHR '' '', CHR 0x09, CHR 0x0A, CHR 0x0B, CHR 0x0C, CHR 0x0D})"

text \<open>Python's \<open>str.strip()\<close>: leading and trailing whitespace removed.\<close>

definition strip :: "string \<Rightarrow> string" where
  "strip s = rev (dropWhile is_space (rev (dropWhile is_space s)))"

text \<open>
  Python's \<open>int\<close> on a string: surrounding whitespace, an optional sign, then
  decimal digits (single underscores between digits are not modelled);
  anything else raises \<open>ValueError\<close>.
\<close>

definition py_int :: "string \<Rightarrow> error + int" where
  "py_int s =
     (let t = strip s;
          neg = (t \<noteq> [] \<and> hd t = CHR ''-'');
          ds = (if t \<noteq> [] \<and> (hd t = CHR ''-'' \<or> hd t = CHR ''+'') then tl t else t)
      in if ds \<noteq> [] \<and> list_all is_digit ds
         then Inr (if neg then - int (nat_of_digits ds) else int (nat_of_digits ds))
         else Inl ValueError)"

subsection \<open>Routes (thor/routing.py)\<close>

text \<open>A path parameter after conversion: an integer or a string.\<close>

datatype pval = PInt int | PStr string

type_synonym params = "string \<Rightarrow> pval option"

text \<open>\<open>\w\<close> on 8-bit text: a letter, a digit or the underscore.\<close>

definition is_word_char :: "char \<Rightarrow> bool" where
  "is_word_char c =
     (c \<in> set ''abcdefghijklmnopqrstuvwxyzABCDEFGHIJKLMNOPQRSTUVWXYZ0123456789_'')"

definition is_hex_char :: "char \<Rightarrow> bool" where
  "is_hex_char c = (c \<in> set ''0123456789abcdefABCDEF'')"

definition is_slug_char :: "char \<Rightarrow> bool" where
  "is_slug_char c = (c \<in> set ''abcdefghijklmnopqrstuvwxyz0123456789'')"

text \<open>
  \<open>PATH_PARAM_PATTERN\<close>, the regular expression \<open>\{(\w+)(?::(\w+))?\}\<close>, tried
  at the start of a string: the name, the type if one is written, and the text
  after the closing brace. The runs of \<open>\w+\<close> are maximal, since a shorter run
  is followed by a word character, which is neither \<open>:\<close> nor \<open>}\<close>.
\<close>

definition match_param_at :: "string \<Rightarrow> (string \<times> string option \<times> string) option" where
  "match_param_at s =
     (case s of
        [] \<Rightarrow> None
      | c # s1 \<Rightarrow>
          if c \<noteq> CHR ''{'' then None
          else
            (let pname = takeWhile is_word_char s1; r1 = dropWhile is_word_char s1
             in if pname = [] then None
                else (case r1 of
                        [] \<Rightarrow> None
                      | d # r2 \<Rightarrow>
                          if d = CHR ''}'' then Some (pname, None, r2)
                          else if d = CHR '':'' then
                            (let ptype = takeWhile is_word_char r2;
                                 r3 = dropWhile is_word_char r2
                             in if ptype = [] then None
                                else (case r3 of
                                        [] \<Rightarrow> None
                                      | e # r4 \<Rightarrow>
                                          if e = CHR ''}'' then Some (pname, Some ptype, r4)
                                          else None))
                          else None)))"

text \<open>\<open>PATH_PARAM_PATTERN.fullmatch(segment)\<close>: the groups 1 and 2.\<close>

definition param_fullmatch :: "string \<Rightarrow> (string \<times> string option) option" where
  "param_fullmatch s =
     (case match_param_at s of
        Some (pname, ptype, rest) \<Rightarrow> if rest = [] then Some (pname, ptype) else None
      | None \<Rightarrow> None)"

text \<open>
  \<open>TYPE_PATTERNS\<close>, each pattern as the set of strings it matches in full:
  \<open>int\<close> is \<open>\d+\<close>, \<open>str\<close> is \<open>[^/]+\<close>, \<open>path\<close> is \<open>.+\<close> (the dot matches any
  character but a newline), \<open>uuid\<close> is the 8-4-4-4-12 hexadecimal form and
  \<open>slug\<close> is \<open>[a-z0-9]+(?:-[a-z0-9]+)*\<close>.
\<close>

definition TYPE_NAMES :: "string list" where
  "TYPE_NAMES = [''int'', ''str'', ''path'', ''uuid'', ''slug'']"

definition is_uuid :: "string \<Rightarrow> bool" where
  "is_uuid v =
     (map length (split_on CHR ''-'' v) = [8, 4, 4, 4, 12]
      \<and> list_all (list_all is_hex_char) (split_on CHR ''-'' v))"

definition is_slug :: "string \<Rightarrow> bool" where
  "is_slug v = list_all (\<lambda>part. part \<noteq> [] \<and> list_all is_slug_char part) (split_on CHR ''-'' v)"

definition str_fullmatch :: "string \<Rightarrow> bool" where
  "str_fullmatch v = (v \<noteq> [] \<and> CHR ''/'' \<notin> set v)"

text \<open>
  \<open>re.fullmatch(TYPE_PATTERNS.get(ptype, TYPE_PATTERNS["str"]), value)\<close>: an
  unknown type name falls back to the pattern of \<open>str\<close>.
\<close>

definition type_fullmatch :: "string \<Rightarrow> string \<Rightarrow> bool" where
  "type_fullmatch ptype v =
     (if ptype = ''int'' then v \<noteq> [] \<and> list_all is_digit v
      else if ptype = ''path'' then v \<noteq> [] \<and> CHR 0x0A \<notin> set v
      else if ptype = ''uuid'' then is_uuid v
      else if ptype = ''slug'' then is_slug v
      else str_fullmatch v)"

text \<open>
  \<open>TYPE_CONVERTERS.get(ptype, str)(value)\<close>; \<open>None\<close> stands for the
  \<open>ValueError\<close> that both callers catch.
\<close>

definition convert :: "string \<Rightarrow> string \<Rightarrow> pval option" where
  "convert ptype v =
     (if ptype = ''int'' then (case py_int v of Inr i \<Rightarrow> Some (PInt i) | Inl e \<Rightarrow> None)
      else Some (PStr v))"

record route =
  route_path :: string
  route_handler :: nat
  route_methods :: "string set"
  route_name :: "string option"

text \<open>
  The compiled pattern of a route. \<open>PATH_PARAM_PATTERN.sub\<close> replaces every
  match, found from left to right, by a named group of the type's pattern; the
  text in between stays as it is. The model keeps that text as literal
  characters: it stands for the regular expression only when the text holds
  no regular-expression operator.
\<close>

datatype token = Lit char | Param string string

function tokenize :: "string \<Rightarrow> token list" where
  "tokenize [] = []"
| "tokenize (c # cs) =
     (case match_param_at (c # cs) of
        Some (pname, ptype, rest) \<Rightarrow>
          Param pname (case ptype of Some t \<Rightarrow> t | None \<Rightarrow> ''str'') # tokenize rest
      | None \<Rightarrow> Lit c # tokenize cs)"
  by pat_completeness auto

lemma dropWhile_Cons_shorter:
  assumes "dropWhile P xs = y # ys"
  shows "length ys < length xs"
proof -
  have "length (dropWhile P xs) \<le> length xs"
    by (rule length_dropWhile_le)
  with assms show ?thesis by simp
qed

lemma match_param_at_shorter:
  assumes "match_param_at s = Some (pname, ptype, rest)"
  shows "length rest < length s"
proof (cases s)
  case Nil
  with assms show ?thesis by (simp add: match_param_at_def)
next
  case (Cons c s1)
  show ?thesis
  proof (cases "dropWhile is_word_char s1")
    case Nil
    have "match_param_at s = None"
      by (simp add: match_param_at_def Let_def Cons Nil)
    with assms show ?thesis by simp
  next
    case r1: (Cons d r2)
    have l1: "length r2 < length s1"
      using dropWhile_Cons_shorter [OF r1] .
    show ?thesis
    proof (cases "d = CHR ''}''")
      case True
      with assms have "rest = r2"
        by (simp add: match_param_at_def Let_def Cons r1 split: if_splits)
      with l1 Cons show ?thesis by simp
    next
      case False
      show ?thesis
      proof (cases "dropWhile is_word_char r2")
        case Nil
        have "match_param_at s = None"
          using False by (simp add: match_param_at_def Let_def Cons r1 Nil)
        with assms show ?thesis by simp
      next
        case r3: (Cons e r4)
        from assms False have "rest = r4"
          by (simp add: match_param_at_def Let_def Cons r1 r3 split: if_splits)
        moreover have "length r4 < length r2"
          using dropWhile_Cons_shorter [OF r3] .
        ultimately show ?thesis using l1 Cons by simp
      qed
    qed
  qed
qed

termination tokenize
  by (relation "measure length") (auto dest: match_param_at_shorter)

text \<open>
  \<open>Route.__post_init__\<close>: an unknown type raises \<open>RoutingError\<close> while the
  pattern is rewritten; \<open>re.compile\<close> then rejects a group name that is not an
  identifier or that is used twice.
\<close>

fun param_names :: "token list \<Rightarrow> string list" where
  "param_names [] = []"
| "param_names (Lit c # ts) = param_names ts"
| "param_names (Param pname ptype # ts) = pname # param_names ts"

fun param_types_known :: "token list \<Rightarrow> bool" where
  "param_types_known [] = True"
| "param_types_known (Lit c # ts) = param_types_known ts"
| "param_types_known (Param pname ptype # ts) = (ptype \<in> set TYPE_NAMES \<and> param_types_known ts)"

definition is_identifier :: "string \<Rightarrow> bool" where
  "is_identifier s = (s \<noteq> [] \<and> \<not> is_digit (hd s) \<and> list_all is_word_char s)"

definition Route :: "string \<Rightarrow> nat \<Rightarrow> string set \<Rightarrow> string option \<Rightarrow> error + route" where
  "Route p h ms n =
     (let ts = tokenize p
      in if \<not> param_types_known ts then Inl RoutingError
         else if \<not> (list_all is_identifier (param_names ts) \<and> distinct (param_names ts))
         then Inl ReError
         else Inr \<lparr>route_path = p, route_handler = h, route_methods = ms, route_name = n\<rparr>)"

text \<open>The first result of a list of attempts, in order.\<close>

fun first_some :: "'a option list \<Rightarrow> 'a option" where
  "first_some [] = None"
| "first_some (None # xs) = first_some xs"
| "first_some (Some x # xs) = Some x"

text \<open>
  \<open>self._pattern.match(path)\<close> for the pattern \<open>^...$\<close>: the named groups in
  order, if the whole path matches. A literal takes one equal character. A
  group is greedy: its candidates are the prefixes that its type's pattern
  matches in full, the longest first, and the first candidate after which
  the rest of the pattern matches is taken. \<open>$\<close> accepts the end of the
  string and the position before a final newline.
\<close>

primrec regex_match :: "token list \<Rightarrow> string \<Rightarrow> (string \<times> string \<times> string) list option" where
  "regex_match [] s = (if s = [] \<or> s = [CHR 0x0A] then Some [] else None)"
| "regex_match (t # ts) s =
     (case t of
        Lit c \<Rightarrow>
          (case s of
             [] \<Rightarrow> None
           | d # s' \<Rightarrow> if c = d then regex_match ts s' else None)
      | Param pname ptype \<Rightarrow>
          first_some
            (map (\<lambda>k. if type_fullmatch ptype (take k s)
                       then map_option (\<lambda>groups. (pname, ptype, take k s) # groups)
                              (regex_match ts (drop k s))
                       else None)
                 (rev [1 ..< Suc (length s)])))"

text \<open>
  The loop of \<open>Route.match\<close> over \<open>groupdict()\<close>: each group is converted with
  the converter of its type; a failed conversion makes the route not match.
\<close>

fun convert_groups :: "(string \<times> string \<times> string) list \<Rightarrow> params \<Rightarrow> params option" where
  "convert_groups [] ps = Some ps"
| "convert_groups ((pname, ptype, v) # gs) ps =
     (case convert ptype v of
        None \<Rightarrow> None
      | Some pv \<Rightarrow> convert_groups gs (ps(pname \<mapsto> pv)))"

definition route_match :: "route \<Rightarrow> string \<Rightarrow> params option" where
  "route_match r p =
     (case regex_match (tokenize (route_path r)) p of
        None \<Rightarrow> None
      | Some groups \<Rightarrow> convert_groups groups Map.empty)"

subsection \<open>Radix tree (thor/routing.py)\<close>

text \<open>
  \<open>_RadixNode\<close>: the segment, the static children by segment, the parametric
  child, and the routes that end at the node.
\<close>

datatype node =
  Node (segment: string) (children: "string \<Rightarrow> node option") (param_child: "node option")
       (routes: "route list")

definition RadixNode :: "string \<Rightarrow> node" where
  "RadixNode seg = Node seg Map.empty None []"

text \<open>\<open>_split\<close>: the non-empty pieces between slashes.\<close>

definition split_path :: "string \<Rightarrow> string list" where
  "split_path p = filter (\<lambda>s. s \<noteq> []) (split_on CHR ''/'' p)"

definition is_param :: "string \<Rightarrow> bool" where
  "is_param seg = (starts_with seg ''{'' \<and> ends_with seg ''}'')"

text \<open>
  \<open>insert\<close> walks down from the root, creating the missing nodes, and appends
  the route to the node it ends at. The source updates the nodes in place;
  here the nodes along the walk are rebuilt.
\<close>

fun insert_at :: "route \<Rightarrow> string list \<Rightarrow> node \<Rightarrow> node" where
  "insert_at r [] (Node s ch pc rs) = Node s ch pc (rs @ [r])"
| "insert_at r (seg # segs) (Node s ch pc rs) =
     (if is_param seg then
        Node s ch
          (Some (insert_at r segs (case pc of None \<Rightarrow> RadixNode seg | Some pnode \<Rightarrow> pnode))) rs
      else
        Node s
          (ch(seg \<mapsto> insert_at r segs (case ch seg of None \<Rightarrow> RadixNode seg | Some c \<Rightarrow> c)))
          pc rs)"

definition tree_insert :: "route \<Rightarrow> node \<Rightarrow> node" where
  "tree_insert r rt = insert_at r (split_path (route_path r)) rt"

text \<open>
  The terminal check of \<open>search\<close>: the first route of the node that allows the
  method, or else \<open>method_matched_route\<close> after the loop, which keeps the first
  route seen.
\<close>

fun scan_routes :: "string \<Rightarrow> route list \<Rightarrow> route option \<Rightarrow> route + route option" where
  "scan_routes method [] mm = Inr mm"
| "scan_routes method (r # rs) mm =
     (if method \<in> route_methods r then Inl r
      else scan_routes method rs (case mm of None \<Rightarrow> Some r | Some m \<Rightarrow> Some m))"

text \<open>
  What one iteration pushes for the parametric child: nothing unless the
  child's segment is a parameter template whose type matches the segment and
  whose conversion succeeds.
\<close>

definition push_param ::
  "node \<Rightarrow> nat \<Rightarrow> params \<Rightarrow> string \<Rightarrow> (node \<times> nat \<times> params) list" where
  "push_param nd idx ps seg_value =
     (case param_child nd of
        None \<Rightarrow> []
      | Some pnode \<Rightarrow>
          (case param_fullmatch (segment pnode) of
             None \<Rightarrow> []
           | Some (pname, ptype0) \<Rightarrow>
               (let ptype = (case ptype0 of Some t \<Rightarrow> t | None \<Rightarrow> ''str'')
                in if type_fullmatch ptype seg_value then
                     (case convert ptype seg_value of
                        Some pv \<Rightarrow> [(pnode, idx + 1, ps(pname \<mapsto> pv))]
                      | None \<Rightarrow> [])
                   else [])))"

definition push_static ::
  "node \<Rightarrow> nat \<Rightarrow> params \<Rightarrow> string \<Rightarrow> (node \<times> nat \<times> params) list" where
  "push_static nd idx ps seg_value =
     (case children nd seg_value of
        Some c \<Rightarrow> [(c, idx + 1, ps)]
      | None \<Rightarrow> [])"

text \<open>
  The \<open>while stack\<close> loop. The head of the list is the top of the stack: the
  parametric entry is pushed first and the static entry second, so the static
  one is popped first.
\<close>

function search_loop ::
  "string list \<Rightarrow> string \<Rightarrow> (node \<times> nat \<times> params) list \<Rightarrow> route option
     \<Rightarrow> error + (route \<times> params)" where
  "search_loop segments method [] mm =
     (case mm of Some r \<Rightarrow> Inl MethodNotAllowed | None \<Rightarrow> Inl NotFound)"
| "search_loop segments method ((nd, idx, ps) # stack) mm =
     (if idx = length segments then
        (case scan_routes method (routes nd) mm of
           Inl r \<Rightarrow> Inr (r, ps)
         | Inr mm' \<Rightarrow> search_loop segments method stack mm')
      else if idx > length segments then Inl IndexError
      else
        search_loop segments method
          (push_static nd idx ps (segments ! idx)
             @ push_param nd idx ps (segments ! idx) @ stack) mm)"
  by pat_completeness auto

text \<open>Every entry is worth three times an entry one segment further down.\<close>

definition stack_weight :: "nat \<Rightarrow> (node \<times> nat \<times> params) list \<Rightarrow> nat" where
  "stack_weight n stack = sum_list (map (\<lambda>(nd, idx, ps). 3 ^ (n - idx)) stack)"

lemma stack_weight_Cons:
  "stack_weight n ((nd, idx, ps) # stack) = 3 ^ (n - idx) + stack_weight n stack"
  by (simp add: stack_weight_def)

lemma stack_weight_append:
  "stack_weight n (xs @ ys) = stack_weight n xs + stack_weight n ys"
  by (simp add: stack_weight_def)

lemma stack_weight_push_static:
  "stack_weight n (push_static nd idx ps v) \<le> 3 ^ (n - Suc idx)"
  by (simp add: push_static_def stack_weight_def split: option.splits)

lemma stack_weight_push_param:
  "stack_weight n (push_param nd idx ps v) \<le> 3 ^ (n - Suc idx)"
  by (simp add: push_param_def stack_weight_def Let_def split: option.splits prod.splits)

lemma stack_weight_step:
  assumes "idx < n"
  shows "stack_weight n (push_static nd idx ps v @ push_param nd idx ps v @ stack)
           < stack_weight n ((nd, idx, ps) # stack)"
proof -
  from assms obtain k where k: "n - idx = Suc k"
    by (cases "n - idx") auto
  then have k': "n - Suc idx = k" by simp
  have "stack_weight n (push_static nd idx ps v) + stack_weight n (push_param nd idx ps v)
          \<le> 2 * 3 ^ k"
    using stack_weight_push_static [of n nd idx ps v] stack_weight_push_param [of n nd idx ps v]
    by (simp add: k')
  also have "\<dots> < (3::nat) ^ Suc k" by simp
  finally show ?thesis
    by (simp add: stack_weight_append stack_weight_Cons k)
qed

termination search_loop
proof (relation "measure (\<lambda>(segments, method, stack, mm). stack_weight (length segments) stack)")
  show "wf (measure (\<lambda>(segments, method, stack, mm). stack_weight (length segments) stack))"
    by simp
next
  fix segments :: "string list" and meth :: string and nd :: node and idx :: nat
    and ps :: params and stack :: "(node \<times> nat \<times> params) list" and mm x2
  show "((segments, meth, stack, x2), segments, meth, (nd, idx, ps) # stack, mm)
          \<in> measure (\<lambda>(segments, method, stack, mm). stack_weight (length segments) stack)"
    by (simp add: stack_weight_Cons)
next
  fix segments :: "string list" and meth :: string and nd :: node and idx :: nat
    and ps :: params and stack :: "(node \<times> nat \<times> params) list" and mm :: "route option"
  assume "idx \<noteq> length segments" and "\<not> length segments < idx"
  then have "idx < length segments" by simp
  then show "((segments, meth,
               push_static nd idx ps (segments ! idx) @ push_param nd idx ps (segments ! idx) @ stack,
               mm),
              segments, meth, (nd, idx, ps) # stack, mm)
          \<in> measure (\<lambda>(segments, method, stack, mm). stack_weight (length segments) stack)"
    using stack_weight_step [of idx "length segments"] by simp
qed

text \<open>\<open>RadixTree.search\<close>.\<close>

definition tree_search :: "node \<Rightarrow> string \<Rightarrow> string \<Rightarrow> error + (route \<times> params)" where
  "tree_search rt p method = search_loop (split_path p) method [(rt, 0, Map.empty)] None"

subsection \<open>Router (thor/routing.py)\<close>

text \<open>
  A router: its prefix, the routes registered on it, the included routers with
  their full prefixes, the tree and the dirty flag. An included router is held
  by value, as it was when it was included.
\<close>

datatype router =
  Router (r_prefix: string) (r_routes: "route list") (r_subrouters: "(string \<times> router) list")
         (r_tree: node) (r_tree_dirty: bool)

text \<open>\<open>s.rstrip("/")\<close>.\<close>

definition rstrip_slash :: "string \<Rightarrow> string" where
  "rstrip_slash s = rev (dropWhile (\<lambda>c. c = CHR ''/'') (rev s))"

text \<open>\<open>Router.__init__\<close>.\<close>

definition new_router :: "string \<Rightarrow> router" where
  "new_router pf = Router (rstrip_slash pf) [] [] (RadixNode []) False"

text \<open>The routes of an included router, rebuilt under the prefix, in order.\<close>

fun prefixed :: "string \<Rightarrow> route list \<Rightarrow> error + route list" where
  "prefixed pf [] = Inr []"
| "prefixed pf (r # rs) =
     (case Route (pf @ route_path r) (route_handler r) (route_methods r) (route_name r) of
        Inl e \<Rightarrow> Inl e
      | Inr r' \<Rightarrow> (case prefixed pf rs of Inl e \<Rightarrow> Inl e | Inr rs' \<Rightarrow> Inr (r' # rs')))"

text \<open>The property \<open>routes\<close>: the router's own routes, then those of each included router.\<close>

fun all_routes :: "router \<Rightarrow> error + route list"
  and sub_routes :: "(string \<times> router) list \<Rightarrow> error + route list" where
  "all_routes (Router pf rs subs t d) =
     (case sub_routes subs of Inl e \<Rightarrow> Inl e | Inr xs \<Rightarrow> Inr (rs @ xs))"
| "sub_routes [] = Inr []"
| "sub_routes ((pf, sub) # rest) =
     (case all_routes sub of
        Inl e \<Rightarrow> Inl e
      | Inr srs \<Rightarrow>
          (case prefixed pf srs of
             Inl e \<Rightarrow> Inl e
           | Inr xs \<Rightarrow> (case sub_routes rest of Inl e \<Rightarrow> Inl e | Inr ys \<Rightarrow> Inr (xs @ ys))))"

definition upper :: "string \<Rightarrow> string" where
  "upper s = map to_upper_char s"

text \<open>
  \<open>add_route\<close>: the route is appended and inserted into the tree, and the
  dirty flag is cleared.
\<close>

definition add_route ::
  "router \<Rightarrow> string \<Rightarrow> nat \<Rightarrow> string list option \<Rightarrow> string option \<Rightarrow> error + (route \<times> router)" where
  "add_route rt p h ms n =
     (let full_path = (if r_prefix rt \<noteq> [] then r_prefix rt @ p else p);
          methods_set = set (map upper (case ms of None \<Rightarrow> [''GET'']
                                        | Some l \<Rightarrow> if l = [] then [''GET''] else l))
      in case Route full_path h methods_set n of
           Inl e \<Rightarrow> Inl e
         | Inr r \<Rightarrow>
             Inr (r, Router (r_prefix rt) (r_routes rt @ [r]) (r_subrouters rt)
                       (tree_insert r (r_tree rt)) False))"

text \<open>\<open>include_router\<close>: the router is recorded and the dirty flag is set.\<close>

definition include_router :: "router \<Rightarrow> router \<Rightarrow> string \<Rightarrow> router" where
  "include_router rt sub pf =
     Router (r_prefix rt) (r_routes rt) (r_subrouters rt @ [(r_prefix rt @ pf, sub)])
       (r_tree rt) True"

definition build_tree :: "route list \<Rightarrow> node" where
  "build_tree rs = foldl (\<lambda>t r. tree_insert r t) (RadixNode []) rs"

definition rebuild_tree :: "router \<Rightarrow> error + router" where
  "rebuild_tree rt =
     (case all_routes rt of
        Inl e \<Rightarrow> Inl e
      | Inr rs \<Rightarrow>
          Inr (Router (r_prefix rt) (r_routes rt) (r_subrouters rt) (build_tree rs) False))"

text \<open>\<open>Router.match\<close>: the result, and the router after the call.\<close>

definition router_match ::
  "router \<Rightarrow> string \<Rightarrow> string \<Rightarrow> (error + (route \<times> params)) \<times> router" where
  "router_match rt p method =
     (if r_tree_dirty rt then
        (case rebuild_tree rt of
           Inl e \<Rightarrow> (Inl e, rt)
         | Inr rt' \<Rightarrow> (tree_search (r_tree rt') p (upper method), rt'))
      else (tree_search (r_tree rt) p (upper method), rt))"

subsection \<open>The linear scan of the specification\<close>

text \<open>
  The reference the specification compares the tree with: the registered
  routes are tried in order with \<open>Route.match\<close>; the first one that matches
  the path and allows the method wins. If some route matched the path and none
  allowed the method the scan fails with \<open>MethodNotAllowed\<close>, otherwise with
  \<open>NotFound\<close>.
\<close>

fun linear_scan :: "route list \<Rightarrow> string \<Rightarrow> string \<Rightarrow> bool \<Rightarrow> error + (route \<times> params)" where
  "linear_scan [] p method path_matched =
     Inl (if path_matched then MethodNotAllowed else NotFound)"
| "linear_scan (r # rs) p method path_matched =
     (case route_match r p of
        None \<Rightarrow> linear_scan rs p method path_matched
      | Some ps \<Rightarrow>
          if method \<in> route_methods r then Inr (r, ps)
          else linear_scan rs p method True)"

subsection \<open>Segment-wise matching, for the comparison of the tree with the linear scan\<close>

text \<open>
  The name and type a parametric template segment declares, and the check and
  conversion \<open>search\<close> applies to a path segment under it.
\<close>

definition bind_param :: "string \<Rightarrow> string \<Rightarrow> params \<Rightarrow> params option" where
  "bind_param template v ps =
     (case param_fullmatch template of
        None \<Rightarrow> None
      | Some (pname, ptype0) \<Rightarrow>
          (let ptype = (case ptype0 of Some t \<Rightarrow> t | None \<Rightarrow> ''str'')
           in if type_fullmatch ptype v then
                (case convert ptype v of
                   Some pv \<Rightarrow> Some (ps(pname \<mapsto> pv))
                 | None \<Rightarrow> None)
              else None))"

text \<open>
  A template matched against a path segment by segment: a static segment
  must be equal, a parametric one binds its parameter.
\<close>

fun seg_match :: "string list \<Rightarrow> string list \<Rightarrow> params \<Rightarrow> params option" where
  "seg_match [] [] ps = Some ps"
| "seg_match (t # ts) (v # vs) ps =
     (if is_param t then
        (case bind_param t v ps of None \<Rightarrow> None | Some ps' \<Rightarrow> seg_match ts vs ps')
      else if t = v then seg_match ts vs ps
      else None)"
| "seg_match [] (v # vs) ps = None"
| "seg_match (t # ts) [] ps = None"

text \<open>
  The routes the depth-first walk reaches below a node for the remaining path
  segments, with the parameters bound on the way, in the order in which the
  loop of \<open>search\<close> pops them.
\<close>

fun cands :: "node \<Rightarrow> string list \<Rightarrow> params \<Rightarrow> (route \<times> params) list" where
  "cands nd [] ps = map (\<lambda>r. (r, ps)) (routes nd)"
| "cands nd (v # vs) ps =
     concat (map (\<lambda>(c, idx, ps'). cands c vs ps') (push_static nd 0 ps v @ push_param nd 0 ps v))"

text \<open>The outcome of the loop on such a list of candidates.\<close>

fun scan_cands ::
  "string \<Rightarrow> (route \<times> params) list \<Rightarrow> route option \<Rightarrow> error + (route \<times> params)" where
  "scan_cands method [] mm = (case mm of Some r \<Rightarrow> Inl MethodNotAllowed | None \<Rightarrow> Inl NotFound)"
| "scan_cands method ((r, ps) # rest) mm =
     (if method \<in> route_methods r then Inr (r, ps)
      else scan_cands method rest (case mm of None \<Rightarrow> Some r | Some m \<Rightarrow> Some m))"

text \<open>
  The match of a template along the nodes of a tree: at a parametric
  position the segment of the node already there decides, if there is one.
\<close>

fun tmatch :: "node \<Rightarrow> string list \<Rightarrow> string list \<Rightarrow> params \<Rightarrow> params option" where
  "tmatch nd [] [] ps = Some ps"
| "tmatch nd (t # ts) (v # vs) ps =
     (if is_param t then
        (let pnode = (case param_child nd of None \<Rightarrow> RadixNode t | Some pn \<Rightarrow> pn)
         in case bind_param (segment pnode) v ps of
              None \<Rightarrow> None
            | Some ps' \<Rightarrow> tmatch pnode ts vs ps')
      else if t = v then
        tmatch (case children nd t of None \<Rightarrow> RadixNode t | Some c \<Rightarrow> c) ts vs ps
      else None)"
| "tmatch nd [] (v # vs) ps = None"
| "tmatch nd (t # ts) [] ps = None"

text \<open>
  A template fits a tree when every parametric node on its way carries the
  template's own segment.
\<close>

fun fits :: "node \<Rightarrow> string list \<Rightarrow> bool" where
  "fits nd [] = True"
| "fits nd (t # ts) =
     (if is_param t then
        (case param_child nd of None \<Rightarrow> True | Some pn \<Rightarrow> segment pn = t \<and> fits pn ts)
      else (case children nd t of None \<Rightarrow> True | Some c \<Rightarrow> fits c ts))"

text \<open>
  Two templates are compatible when, as long as they walk the same way down
  the tree, they write the same text at every parametric position.
\<close>

fun compat :: "string list \<Rightarrow> string list \<Rightarrow> bool" where
  "compat [] bs = True"
| "compat (a # as) [] = True"
| "compat (a # as) (b # bs) =
     (if is_param a \<and> is_param b then a = b \<and> compat as bs
      else if \<not> is_param a \<and> \<not> is_param b \<and> a = b then compat as bs
      else True)"

text \<open>The entries of a stack, as candidates.\<close>

definition stack_cands :: "string list \<Rightarrow> (node \<times> nat \<times> params) list \<Rightarrow> (route \<times> params) list" where
  "stack_cands segs stack = concat (map (\<lambda>(nd, idx, ps). cands nd (drop idx segs) ps) stack)"

subsection \<open>Well-formed templates and paths\<close>

text \<open>
  The characters that are operators of a regular expression, together with
  the slash and the braces: a static segment free of them is matched by the
  compiled pattern exactly as the literal text it is.
\<close>

definition special_char :: "char \<Rightarrow> bool" where
  "special_char c = (c \<in> set ''/{}.^$*+?[]|()'' \<or> c = CHR 0x5C)"

definition plain_segment :: "string \<Rightarrow> bool" where
  "plain_segment s = (s \<noteq> [] \<and> list_all (\<lambda>c. \<not> special_char c) s)"

text \<open>
  A parametric segment: the whole segment is one \<open>{name}\<close> or \<open>{name:type}\<close>
  whose type matches within one path segment (every type but \<open>path\<close>).
\<close>

definition typed_segment :: "string \<Rightarrow> bool" where
  "typed_segment s =
     (case param_fullmatch s of
        None \<Rightarrow> False
      | Some (pname, ptype0) \<Rightarrow>
          (case ptype0 of
             None \<Rightarrow> True
           | Some ptype \<Rightarrow> ptype \<in> set [''int'', ''str'', ''uuid'', ''slug'']))"

text \<open>
  The canonical text of a list of segments: a slash before each segment, and
  \<open>/\<close> alone for no segment.
\<close>

definition slashed :: "string list \<Rightarrow> string" where
  "slashed segs = concat (map (\<lambda>s. CHR ''/'' # s) segs)"

definition canon :: "string list \<Rightarrow> string" where
  "canon segs = (if segs = [] then ''/'' else slashed segs)"

definition wf_template :: "string \<Rightarrow> bool" where
  "wf_template t =
     (t = canon (split_path t)
      \<and> list_all (\<lambda>s. plain_segment s \<or> typed_segment s) (split_path t))"

text \<open>
  A request path in canonical form (no empty segment, no trailing slash) that
  does not end with a newline.
\<close>

definition wf_path :: "string \<Rightarrow> bool" where
  "wf_path p = (p = canon (split_path p) \<and> last p \<noteq> CHR 0x0A)"

text \<open>The groups of a segment-wise match, before conversion.\<close>

fun seg_groups :: "string list \<Rightarrow> string list \<Rightarrow> (string \<times> string \<times> string) list option" where
  "seg_groups [] [] = Some []"
| "seg_groups (t # ts) (v # vs) =
     (if is_param t then
        (case param_fullmatch t of
           None \<Rightarrow> None
         | Some (pname, ptype0) \<Rightarrow>
             (let ptype = (case ptype0 of Some ty \<Rightarrow> ty | None \<Rightarrow> ''str'')
              in if type_fullmatch ptype v
                 then map_option (\<lambda>groups. (pname, ptype, v) # groups) (seg_groups ts vs)
                 else None))
      else if t = v then seg_groups ts vs
      else None)"
| "seg_groups [] (v # vs) = None"
| "seg_groups (t # ts) [] = None"

text \<open>
  A route set is well formed when every template is, and any two templates
  are compatible.
\<close>

definition wf_routes :: "route list \<Rightarrow> bool" where
  "wf_routes rs =
     (list_all (\<lambda>r. wf_template (route_path r)) rs
      \<and> list_all (\<lambda>r. list_all (\<lambda>r'. compat (split_path (route_path r))
                                          (split_path (route_path r'))) rs) rs)"

text \<open>The node reached from a node by static children only, and its routes.\<close>

fun descend :: "node \<Rightarrow> string list \<Rightarrow> node option" where
  "descend nd [] = Some nd"
| "descend nd (v # vs) = (case children nd v of None \<Rightarrow> None | Some c \<Rightarrow> descend c vs)"

definition static_routes :: "node \<Rightarrow> string list \<Rightarrow> route list" where
  "static_routes nd vs = (case descend nd vs of None \<Rightarrow> [] | Some tn \<Rightarrow> routes tn)"

subsection \<open>Request body (thor/request.py)\<close>

text \<open>
  The part of a \<open>Request\<close> that \<open>body\<close> reads and writes. \<open>receive\<close> holds the
  messages the adapter has not delivered yet, each \<open>(body, more_body)\<close> with the
  defaults of \<open>message.get\<close> filled in; once the list is used up the adapter
  answers \<open>http.disconnect\<close>, a message with neither key.
\<close>

record request_body_state =
  max_body_size :: int
  content_length_header :: "string option"
  cached_body :: "string option"
  body_consumed :: bool
  receive :: "(string \<times> bool) list"

text \<open>The property \<open>content_length\<close>: \<open>int(length) if length else None\<close>.\<close>

definition content_length :: "request_body_state \<Rightarrow> error + int option" where
  "content_length r =
     (case content_length_header r of
        None \<Rightarrow> Inr None
      | Some l \<Rightarrow> if l = [] then Inr None
                  else (case py_int l of Inl e \<Rightarrow> Inl e | Inr n \<Rightarrow> Inr (Some n)))"

text \<open>
  The \<open>while True\<close> loop of \<open>body\<close>: the chunks kept so far, the running total,
  and the messages still to come. It returns the chunks or the exception,
  together with the messages it has not consumed.
\<close>

fun read_chunks ::
  "int \<Rightarrow> (string \<times> bool) list \<Rightarrow> string list \<Rightarrow> int
     \<Rightarrow> (error + string list) \<times> (string \<times> bool) list" where
  "read_chunks cap [] chunks total_size = (Inr chunks, [])"
| "read_chunks cap ((b, more_body) # rest) chunks total_size =
     (if b \<noteq> [] then
        (let total_size' = total_size + int (length b)
         in if cap > 0 \<and> total_size' > cap then (Inl PayloadTooLarge, rest)
            else if more_body then read_chunks cap rest (chunks @ [b]) total_size'
            else (Inr (chunks @ [b]), rest))
      else if more_body then read_chunks cap rest chunks total_size
      else (Inr chunks, rest))"

text \<open>\<open>Request.body\<close>: the result or the exception, and the request afterwards.\<close>

definition body :: "request_body_state \<Rightarrow> (error + string) \<times> request_body_state" where
  "body r =
     (case cached_body r of
        Some b \<Rightarrow> (Inr b, r)
      | None \<Rightarrow>
          if body_consumed r then (Inr [], r)
          else
            (case (if max_body_size r > 0 then content_length r else Inr None) of
               Inl e \<Rightarrow> (Inl e, r)
             | Inr cl \<Rightarrow>
                 if (case cl of Some n \<Rightarrow> n > max_body_size r | None \<Rightarrow> False)
                 then (Inl PayloadTooLarge, r)
                 else
                   (case read_chunks (max_body_size r) (receive r) [] 0 of
                      (Inl e, rest) \<Rightarrow> (Inl e, r\<lparr>receive := rest\<rparr>)
                    | (Inr chunks, rest) \<Rightarrow>
                        (Inr (concat chunks),
                         r\<lparr>receive := rest, cached_body := Some (concat chunks),
                           body_consumed := True\<rparr>))))"

text \<open>
  The body the adapter holds for the request: the chunks up to and including
  the first message without \<open>more_body\<close>.
\<close>

fun request_body :: "(string \<times> bool) list \<Rightarrow> string" where
  "request_body [] = []"
| "request_body ((b, more_body) # rest) = b @ (if more_body then request_body rest else [])"

subsection \<open>Cookies and the signed-token codec (thor/cookies.py)\<close>

record cookie_options =
  co_max_age :: "int option"
  co_expires :: "string option"
  co_path :: string
  co_domain :: "string option"
  co_secure :: bool
  co_httponly :: bool
  co_samesite :: string

text \<open>The defaults of the dataclass \<open>CookieOptions\<close>.\<close>

definition CookieOptions :: cookie_options where
  "CookieOptions =
     \<lparr>co_max_age = None, co_expires = None, co_path = ''/'', co_domain = None,
      co_secure = True, co_httponly = True, co_samesite = ''lax''\<rparr>"

definition to_header_string :: "cookie_options \<Rightarrow> string" where
  "to_header_string opts =
     join ''; ''
       ((case co_max_age opts of Some n \<Rightarrow> [''Max-Age='' @ str_int n] | None \<Rightarrow> [])
        @ (case co_expires opts of
             Some e \<Rightarrow> if e \<noteq> [] then [''Expires='' @ e] else [] | None \<Rightarrow> [])
        @ (if co_path opts \<noteq> [] then [''Path='' @ co_path opts] else [])
        @ (case co_domain opts of
             Some d \<Rightarrow> if d \<noteq> [] then [''Domain='' @ d] else [] | None \<Rightarrow> [])
        @ (if co_secure opts then [''Secure''] else [])
        @ (if co_httponly opts then [''HttpOnly''] else [])
        @ (if co_samesite opts \<noteq> [] then [''SameSite='' @ capitalize (co_samesite opts)] else []))"

definition format_set_cookie :: "string \<Rightarrow> string \<Rightarrow> cookie_options \<Rightarrow> string" where
  "format_set_cookie name v opts =
     (let cookie = name @ ''='' @ v;
          options_str = to_header_string opts
      in if options_str \<noteq> [] then cookie @ ''; '' @ options_str else cookie)"

text \<open>\<open>parse_cookies\<close>: a later item with the same key replaces an earlier one.\<close>

definition parse_cookies :: "string \<Rightarrow> (string \<Rightarrow> string option)" where
  "parse_cookies cookie_header =
     (if cookie_header = [] then Map.empty
      else foldl
             (\<lambda>cookies item0.
                let item = strip item0
                in if CHR ''='' \<in> set item
                   then (case partition_at CHR ''='' item of
                           (k, v) \<Rightarrow> cookies(strip k \<mapsto> strip v))
                   else cookies)
             Map.empty (split_on CHR '';'' cookie_header))"

text \<open>
  \<open>SecureCookie.__init__\<close> stores the key (a string is encoded first) and has
  no other statement: it returns for every key.
\<close>

record secure_cookie =
  sc_secret_key :: string

definition SecureCookie :: "string \<Rightarrow> error + secure_cookie" where
  "SecureCookie secret_key = Inr \<lparr>sc_secret_key = secret_key\<rparr>"

subsection \<open>The application object (thor/app.py)\<close>

definition MIN_SECRET_KEY_LENGTH :: nat where
  "MIN_SECRET_KEY_LENGTH = 16"

definition SECRET_REQUIRED_MIDDLEWARE :: "string set" where
  "SECRET_REQUIRED_MIDDLEWARE = {''SessionMiddleware'', ''CSRFMiddleware''}"

text \<open>
  A registered middleware: the name of its class and the \<open>secret_key\<close> among
  its own options, if any.
\<close>

record thor =
  debug :: bool
  title :: string
  version :: string
  secret_key :: "string option"
  middleware :: "(string \<times> string option) list"

text \<open>\<open>Thor.__init__\<close>; the error handler is the first middleware of the stack.\<close>

definition Thor :: "bool \<Rightarrow> string \<Rightarrow> string \<Rightarrow> string option \<Rightarrow> error + thor" where
  "Thor dbg ttl ver key =
     (if (case key of Some k \<Rightarrow> length k < MIN_SECRET_KEY_LENGTH | None \<Rightarrow> False)
      then Inl ValueError
      else Inr \<lparr>debug = dbg, title = ttl, version = ver, secret_key = key,
                middleware = [(''ErrorHandlerMiddleware'', None)]\<rparr>)"

text \<open>
  \<open>Thor.add_middleware\<close>: a session or CSRF middleware needs the application
  to have a key; the key among the middleware's own options is not looked at.
\<close>

definition add_middleware :: "thor \<Rightarrow> string \<Rightarrow> string option \<Rightarrow> error + thor" where
  "add_middleware app class_name option_key =
     (if class_name \<in> SECRET_REQUIRED_MIDDLEWARE \<and> secret_key app = None
      then Inl RuntimeError
      else Inr (app\<lparr>middleware := middleware app @ [(class_name, option_key)]\<rparr>))"

text \<open>
  \<open>SessionMiddleware.__init__\<close> builds its codec from the key among its own
  options: \<open>self._secure_cookie = SecureCookie(secret_key)\<close>.
\<close>

definition session_middleware_codec :: "string \<Rightarrow> error + secure_cookie" where
  "session_middleware_codec option_key = SecureCookie option_key"

subsection \<open>CSRF middleware (thor/middleware/csrf.py)\<close>

definition SAFE_METHODS :: "string set" where
  "SAFE_METHODS = {''GET'', ''HEAD'', ''OPTIONS'', ''TRACE''}"

definition DEFAULT_COOKIE_NAME :: string where
  "DEFAULT_COOKIE_NAME = ''thor_csrf''"

definition DEFAULT_HEADER_NAME :: string where
  "DEFAULT_HEADER_NAME = ''x-csrf-token''"

definition DEFAULT_FORM_FIELD :: string where
  "DEFAULT_FORM_FIELD = ''_csrf_token''"

definition DEFAULT_TOKEN_LENGTH :: nat where
  "DEFAULT_TOKEN_LENGTH = 32"

text \<open>A value of a parsed form: one string, or the list of a repeated field.\<close>

datatype form_value = FStr string | FList "string list"

text \<open>
  What the middleware reads of a request: the method and path of the scope, its
  raw header pairs, and the value or the exception of \<open>await request.form()\<close>
  (the body reader and the standard library's parsers behind it are not
  unfolded here).
\<close>

record http_request =
  rq_method :: string
  rq_path :: string
  rq_headers :: "(string \<times> string) list"
  rq_form :: "error + (string \<Rightarrow> form_value option)"

text \<open>The property \<open>headers\<close>: names lower-cased, a later pair replaces an earlier one.\<close>

definition headers :: "http_request \<Rightarrow> (string \<Rightarrow> string option)" where
  "headers rq = foldl (\<lambda>hs (n, v). hs(lower n \<mapsto> v)) Map.empty (rq_headers rq)"

definition get_header :: "http_request \<Rightarrow> string \<Rightarrow> string option" where
  "get_header rq name = headers rq (lower name)"

definition cookies :: "http_request \<Rightarrow> (string \<Rightarrow> string option)" where
  "cookies rq = parse_cookies (case headers rq ''cookie'' of Some h \<Rightarrow> h | None \<Rightarrow> [])"

definition get_cookie :: "http_request \<Rightarrow> string \<Rightarrow> string option" where
  "get_cookie rq name = cookies rq name"

definition content_type :: "http_request \<Rightarrow> string" where
  "content_type rq = (case headers rq ''content-type'' of Some h \<Rightarrow> h | None \<Rightarrow> [])"

record csrf_middleware =
  cookie_name :: string
  header_name :: string
  form_field :: string
  token_length :: nat
  safe_methods :: "string set"
  exclude_paths :: "string list"
  cookie_options :: cookie_options

text \<open>\<open>CSRFMiddleware.__init__\<close> with every optional argument left out.\<close>

definition CSRFMiddleware :: csrf_middleware where
  "CSRFMiddleware =
     \<lparr>cookie_name = DEFAULT_COOKIE_NAME, header_name = DEFAULT_HEADER_NAME,
      form_field = DEFAULT_FORM_FIELD, token_length = DEFAULT_TOKEN_LENGTH,
      safe_methods = SAFE_METHODS, exclude_paths = [],
      cookie_options = CookieOptions\<lparr>co_httponly := False\<rparr>\<rparr>"

text \<open>
  \<open>_tokens_match\<close>: \<open>hmac.compare_digest\<close> on the encoded strings, which is
  equality of the two strings.
\<close>

definition tokens_match :: "string \<Rightarrow> string \<Rightarrow> bool" where
  "tokens_match expected submitted = (expected = submitted)"

text \<open>
  \<open>_get_form_token\<close> is a static method: it sees the request only, and reads
  the field named by the module constant.
\<close>

definition get_form_token :: "http_request \<Rightarrow> error + string option" where
  "get_form_token rq =
     (if contains (content_type rq) ''application/x-www-form-urlencoded'' then
        (case rq_form rq of
           Inl e \<Rightarrow> Inl e
         | Inr form \<Rightarrow>
             (case form DEFAULT_FORM_FIELD of
                Some (FList vs) \<Rightarrow> Inr (case vs of v # _ \<Rightarrow> Some v | [] \<Rightarrow> None)
              | Some (FStr v) \<Rightarrow> Inr (Some v)
              | None \<Rightarrow> Inr None))
      else Inr None)"

text \<open>Python's truth value of an optional string.\<close>

definition truthy :: "string option \<Rightarrow> bool" where
  "truthy s = (case s of Some t \<Rightarrow> t \<noteq> [] | None \<Rightarrow> False)"

text \<open>The token the request submits: the header, or else the form field.\<close>

definition submitted_token :: "csrf_middleware \<Rightarrow> http_request \<Rightarrow> error + string option" where
  "submitted_token mw rq =
     (let submitted = get_header rq (header_name mw)
      in if \<not> truthy submitted then get_form_token rq else Inr submitted)"

text \<open>
  The token of the request: the cookie's, or a generated one. \<open>fresh\<close> is the
  value \<open>generate_token\<close> would return.
\<close>

definition cookie_token :: "csrf_middleware \<Rightarrow> string \<Rightarrow> http_request \<Rightarrow> string" where
  "cookie_token mw fresh rq =
     (let t = get_cookie rq (cookie_name mw)
      in if \<not> truthy t then fresh else (case t of Some v \<Rightarrow> v | None \<Rightarrow> fresh))"

definition send_with_csrf :: "csrf_middleware \<Rightarrow> string \<Rightarrow> message \<Rightarrow> message" where
  "send_with_csrf mw tok msg =
     (case msg of
        Start st hs \<Rightarrow>
          Start st (hs @ [(''set-cookie'', format_set_cookie (cookie_name mw) tok (cookie_options mw))])
      | _ \<Rightarrow> msg)"

definition excluded :: "csrf_middleware \<Rightarrow> http_request \<Rightarrow> bool" where
  "excluded mw rq = list_ex (\<lambda>p. starts_with (rq_path rq) p) (exclude_paths mw)"

definition csrf_forbidden :: "message list" where
  "csrf_forbidden =
     json_response
       (JObj [(''error'', JStr ''CSRF token missing or invalid''), (''status_code'', JInt 403)])
       403 []"

text \<open>
  One call of \<open>process\<close>: the messages that reach the caller's \<open>send\<close>, whether
  the downstream application was awaited, and \<open>scope["csrf_token"]\<close> afterwards.
  The downstream application is given by the messages it sends, which may
  depend on the token it finds in the scope.
\<close>

record csrf_result =
  sent :: "message list"
  app_called :: bool
  scope_csrf_token :: "string option"

definition csrf_process ::
  "csrf_middleware \<Rightarrow> (string option \<Rightarrow> message list) \<Rightarrow> string \<Rightarrow> http_request
     \<Rightarrow> error + csrf_result" where
  "csrf_process mw app fresh rq =
     (if excluded mw rq then
        Inr \<lparr>sent = app None, app_called = True, scope_csrf_token = None\<rparr>
      else
        (let tok = cookie_token mw fresh rq;
             forward = Inr \<lparr>sent = map (send_with_csrf mw tok) (app (Some tok)),
                            app_called = True, scope_csrf_token = Some tok\<rparr>
         in if rq_method rq \<notin> safe_methods mw then
              (case submitted_token mw rq of
                 Inl e \<Rightarrow> Inl e
               | Inr submitted \<Rightarrow>
                   if \<not> truthy submitted
                      \<or> \<not> tokens_match tok (case submitted of Some s \<Rightarrow> s | None \<Rightarrow> [])
                   then Inr \<lparr>sent = csrf_forbidden, app_called = False,
                             scope_csrf_token = Some tok\<rparr>
                   else forward)
            else forward))"

text \<open>The headers named \<open>set-cookie\<close> of the start messages among \<open>msgs\<close>.\<close>

fun set_cookie_headers :: "message list \<Rightarrow> string list" where
  "set_cookie_headers [] = []"
| "set_cookie_headers (Start st hs # ms) =
     map snd (filter (\<lambda>h. fst h = ''set-cookie'') hs) @ set_cookie_headers ms"
| "set_cookie_headers (m # ms) = set_cookie_headers ms"

subsection \<open>Lifespan protocol (thor/lifespan.py)\<close>

text \<open>
  What the coroutine \<open>_handle_lifespan\<close> does, step by step, in the order of
  its own execution: handlers it awaits, the flag it sets, the bounded wait for
  the in-flight requests, and the messages it passes to \<open>send\<close>.
\<close>

datatype event =
    RunStartup string
  | RunShutdown string
  | EnterContext string
  | ExitContext string
  | MarkShuttingDown
  | AwaitQuiescent
  | Send string

datatype lifespan_message = LifespanStartup | LifespanShutdown | OtherMessage string

text \<open>A handler: its name, and whether awaiting it raises.\<close>

record handler =
  h_name :: string
  h_raises :: bool

record lifespan =
  startup_handlers :: "handler list"
  shutdown_handlers :: "handler list"
  context_manager :: "string option"

datatype status = Returned | Blocked | Raised_by string

text \<open>
  \<open>for handler in handlers: await handler()\<close>: the handlers awaited, and the
  one that raised, if any.
\<close>

fun run_handlers :: "(string \<Rightarrow> event) \<Rightarrow> handler list \<Rightarrow> event list \<times> string option" where
  "run_handlers ev [] = ([], None)"
| "run_handlers ev (h # hs) =
     (if h_raises h then ([ev (h_name h)], Some (h_name h))
      else (case run_handlers ev hs of (es, r) \<Rightarrow> (ev (h_name h) # es, r)))"

text \<open>\<open>Lifespan.startup\<close> and \<open>Lifespan.shutdown\<close> (in reverse order).\<close>

definition startup :: "lifespan \<Rightarrow> event list \<times> string option" where
  "startup ls = run_handlers RunStartup (startup_handlers ls)"

definition shutdown :: "lifespan \<Rightarrow> event list \<times> string option" where
  "shutdown ls = run_handlers RunShutdown (rev (shutdown_handlers ls))"

text \<open>
  \<open>_drain_requests\<close>: nothing when no request is in flight, otherwise one
  bounded wait, which ends by the signal or by the timeout.
\<close>

definition drain_requests :: "nat \<Rightarrow> event list" where
  "drain_requests inflight = (if inflight = 0 then [] else [AwaitQuiescent])"

text \<open>
  The \<open>while True\<close> loop inside the \<open>async with\<close> block, over the messages
  \<open>receive\<close> delivers: the events, and whether the loop returned (it does so
  only on \<open>lifespan.shutdown\<close>; with no further message \<open>receive\<close> never
  answers).
\<close>

fun lifespan_loop :: "nat \<Rightarrow> lifespan_message list \<Rightarrow> event list \<times> bool" where
  "lifespan_loop inflight [] = ([], False)"
| "lifespan_loop inflight (LifespanStartup # ms) =
     (case lifespan_loop inflight ms of
        (es, returned) \<Rightarrow> (Send ''lifespan.startup.complete'' # es, returned))"
| "lifespan_loop inflight (LifespanShutdown # ms) =
     (MarkShuttingDown # drain_requests inflight @ [Send ''lifespan.shutdown.complete''], True)"
| "lifespan_loop inflight (OtherMessage t # ms) = lifespan_loop inflight ms"

text \<open>
  \<open>_handle_lifespan\<close>: \<open>async with self._lifespan(self.state)\<close> runs the
  startup handlers (or enters the context manager) before the block and the
  shutdown handlers (or the rest of the context manager) when the block is
  left; the block is the loop. \<open>send\<close> is taken not to raise.
\<close>

definition handle_lifespan ::
  "lifespan \<Rightarrow> nat \<Rightarrow> lifespan_message list \<Rightarrow> event list \<times> status" where
  "handle_lifespan ls inflight msgs =
     (case context_manager ls of
        Some cm \<Rightarrow>
          (case lifespan_loop inflight msgs of
             (es, returned) \<Rightarrow>
               if returned then (EnterContext cm # es @ [ExitContext cm], Returned)
               else (EnterContext cm # es, Blocked))
      | None \<Rightarrow>
          (case startup ls of
             (es1, Some h) \<Rightarrow> (es1, Raised_by h)
           | (es1, None) \<Rightarrow>
               (case lifespan_loop inflight msgs of
                  (es2, returned) \<Rightarrow>
                    if \<not> returned then (es1 @ es2, Blocked)
                    else
                      (case shutdown ls of
                         (es3, Some h) \<Rightarrow> (es1 @ es2 @ es3, Raised_by h)
                       | (es3, None) \<Rightarrow> (es1 @ es2 @ es3, Returned)))))"

text \<open>The position of the first occurrence of an event in a trace.\<close>

fun index_of :: "event \<Rightarrow> event list \<Rightarrow> nat option" where
  "index_of e [] = None"
| "index_of e (x # xs) = (if x = e then Some 0 else map_option Suc (index_of e xs))"

subsection \<open>Rate limiter (thor/middleware/ratelimit.py)\<close>










section \<open>Properties\<close>

subsection \<open>Radix tree: the search loop as a scan of candidates\<close>

lemma push_param_bind:
  "push_param nd idx ps v =
     (case param_child nd of
        None \<Rightarrow> []
      | Some pn \<Rightarrow> (case bind_param (segment pn) v ps of
                     None \<Rightarrow> [] | Some ps' \<Rightarrow> [(pn, idx + 1, ps')]))"
  by (simp add: push_param_def bind_param_def Let_def split: option.splits prod.splits)

lemma cands_Cons:
  "cands nd (v # vs) ps =
     (case children nd v of None \<Rightarrow> [] | Some c \<Rightarrow> cands c vs ps)
     @ (case param_child nd of
          None \<Rightarrow> []
        | Some pn \<Rightarrow> (case bind_param (segment pn) v ps of
                       None \<Rightarrow> [] | Some ps' \<Rightarrow> cands pn vs ps'))"
  by (simp add: push_param_bind push_static_def split: option.splits)

lemma scan_routes_cands:
  "(case scan_routes m rs mm of Inl r \<Rightarrow> Inr (r, ps) | Inr mm' \<Rightarrow> scan_cands m rest mm')
     = scan_cands m (map (\<lambda>r. (r, ps)) rs @ rest) mm"
  by (induction rs arbitrary: mm) auto

lemma stack_cands_simps:
  "stack_cands segs [] = []"
  "stack_cands segs ((nd, idx, ps) # stack) = cands nd (drop idx segs) ps @ stack_cands segs stack"
  "stack_cands segs (xs @ ys) = stack_cands segs xs @ stack_cands segs ys"
  by (simp_all add: stack_cands_def)

lemma stack_cands_push:
  assumes "idx < length segs"
  shows "stack_cands segs (push_static nd idx ps (segs ! idx) @ push_param nd idx ps (segs ! idx))
           = cands nd (drop idx segs) ps"
proof -
  from assms have d: "drop idx segs = segs ! idx # drop (Suc idx) segs"
    by (simp add: Cons_nth_drop_Suc)
  show ?thesis
    by (simp add: d cands_Cons push_param_bind push_static_def stack_cands_def
        split: option.splits)
qed

declare search_loop.simps [simp del]

lemma search_loop_cands:
  assumes "\<forall>(nd, idx, ps) \<in> set stack. idx \<le> length segs"
  shows "search_loop segs m stack mm = scan_cands m (stack_cands segs stack) mm"
  using assms
proof (induction segs m stack mm rule: search_loop.induct)
  case (1 segments meth mm)
  then show ?case by (simp add: stack_cands_simps search_loop.simps)
next
  case (2 segments meth nd idx ps stack mm)
  from "2.prems" have le: "idx \<le> length segments"
    and rest: "\<forall>(nd, idx, ps) \<in> set stack. idx \<le> length segments"
    by auto
  show ?case
  proof (cases "idx = length segments")
    case True
    have "search_loop segments meth ((nd, idx, ps) # stack) mm
        = (case scan_routes meth (routes nd) mm of
             Inl r \<Rightarrow> Inr (r, ps)
           | Inr mm' \<Rightarrow> scan_cands meth (stack_cands segments stack) mm')"
      using True "2.IH"(1) rest by (simp add: search_loop.simps split: sum.splits)
    also have "\<dots> = scan_cands meth (map (\<lambda>r. (r, ps)) (routes nd) @ stack_cands segments stack) mm"
      by (rule scan_routes_cands)
    finally show ?thesis
      using True by (simp add: stack_cands_simps)
  next
    case False
    with le have lt: "idx < length segments" by simp
    let ?new = "push_static nd idx ps (segments ! idx) @ push_param nd idx ps (segments ! idx)"
    have new_ok: "\<forall>(nd, idx, ps) \<in> set (?new @ stack). idx \<le> length segments"
      using lt rest
      by (auto simp: push_static_def push_param_bind split: option.splits)
    have "search_loop segments meth ((nd, idx, ps) # stack) mm
        = search_loop segments meth (?new @ stack) mm"
      using False lt by (simp add: search_loop.simps)
    also have "\<dots> = scan_cands meth (stack_cands segments (?new @ stack)) mm"
      using "2.IH"(2) [OF False _ ] lt new_ok by simp
    also have "stack_cands segments (?new @ stack)
        = cands nd (drop idx segments) ps @ stack_cands segments stack"
      using stack_cands_push [OF lt, of nd ps] by (simp only: stack_cands_simps(3))
    finally show ?thesis
      by (simp add: stack_cands_simps)
  qed
qed

lemma tree_search_cands:
  "tree_search t p m = scan_cands m (cands t (split_path p) Map.empty) None"
proof -
  have "search_loop (split_path p) m [(t, 0, Map.empty)] None
      = scan_cands m (stack_cands (split_path p) [(t, 0, Map.empty)]) None"
    by (rule search_loop_cands) simp
  then show ?thesis
    by (simp add: tree_search_def stack_cands_def)
qed

subsection \<open>Radix tree: what an insertion adds to the candidates\<close>

declare cands.simps(2) [simp del]

lemma segment_RadixNode [simp]: "segment (RadixNode s) = s"
  by (simp add: RadixNode_def)

lemma segment_insert_at [simp]: "segment (insert_at r ts nd) = segment nd"
  by (cases nd; cases ts) auto

lemma cands_RadixNode [simp]: "cands (RadixNode s) vs ps = []"
  by (cases vs) (simp_all add: RadixNode_def cands_Cons)

lemma tmatch_RadixNode_Nil [simp]: "tmatch nd [] vs ps = (if vs = [] then Some ps else None)"
  by (cases vs) simp_all

lemma cands_insert_at:
  "set (cands (insert_at r ts nd) vs ps)
     = set (cands nd vs ps) \<union> (case tmatch nd ts vs ps of Some ps' \<Rightarrow> {(r, ps')} | None \<Rightarrow> {})"
proof (induction ts arbitrary: nd vs ps)
  case Nil
  show ?case
    by (cases nd; cases vs) (auto simp: cands_Cons)
next
  case (Cons t ts)
  obtain s ch pc rts where nd: "nd = Node s ch pc rts" by (cases nd)
  show ?case
  proof (cases vs)
    case Nil
    then show ?thesis by (simp add: nd)
  next
    case vs: (Cons v vs')
    show ?thesis
    proof (cases "is_param t")
      case True
      let ?pn = "case pc of None \<Rightarrow> RadixNode t | Some pn \<Rightarrow> pn"
      have ins: "insert_at r (t # ts) nd = Node s ch (Some (insert_at r ts ?pn)) rts"
        using True by (simp add: nd)
      have old: "set (cands nd (v # vs') ps) =
          set (case ch v of None \<Rightarrow> [] | Some c \<Rightarrow> cands c vs' ps)
          \<union> (case bind_param (segment ?pn) v ps of None \<Rightarrow> {} | Some ps' \<Rightarrow> set (cands ?pn vs' ps'))"
        by (auto simp: nd cands_Cons split: option.splits)
      have new: "set (cands (insert_at r (t # ts) nd) (v # vs') ps) =
          set (case ch v of None \<Rightarrow> [] | Some c \<Rightarrow> cands c vs' ps)
          \<union> (case bind_param (segment ?pn) v ps of None \<Rightarrow> {}
              | Some ps' \<Rightarrow> set (cands (insert_at r ts ?pn) vs' ps'))"
        unfolding ins by (auto simp: cands_Cons split: option.splits)
      show ?thesis
        unfolding vs new old
        using True by (auto simp: nd Cons.IH Let_def split: option.splits)
    next
      case False
      let ?c = "case ch t of None \<Rightarrow> RadixNode t | Some c \<Rightarrow> c"
      have ins: "insert_at r (t # ts) nd = Node s (ch(t \<mapsto> insert_at r ts ?c)) pc rts"
        using False by (simp add: nd)
      show ?thesis
      proof (cases "t = v")
        case True
        have old: "set (cands nd (v # vs') ps) =
            set (cands ?c vs' ps)
            \<union> set (case pc of None \<Rightarrow> []
                  | Some pn \<Rightarrow> (case bind_param (segment pn) v ps of
                                 None \<Rightarrow> [] | Some ps' \<Rightarrow> cands pn vs' ps'))"
          using True by (auto simp: nd cands_Cons split: option.splits)
        have new: "set (cands (insert_at r (t # ts) nd) (v # vs') ps) =
            set (cands (insert_at r ts ?c) vs' ps)
            \<union> set (case pc of None \<Rightarrow> []
                  | Some pn \<Rightarrow> (case bind_param (segment pn) v ps of
                                 None \<Rightarrow> [] | Some ps' \<Rightarrow> cands pn vs' ps'))"
          unfolding ins using True by (simp add: cands_Cons)
        show ?thesis
          unfolding vs new old
          using True False by (auto simp: nd Cons.IH split: option.splits)
      next
        case neq: False
        have "cands (insert_at r (t # ts) nd) (v # vs') ps = cands nd (v # vs') ps"
          unfolding ins using neq by (simp add: nd cands_Cons)
        then show ?thesis
          using neq False by (simp add: vs nd)
      qed
    qed
  qed
qed

lemma fits_RadixNode [simp]: "fits (RadixNode s) ts"
  by (cases ts) (simp_all add: RadixNode_def)

lemma tmatch_fits:
  "fits nd ts \<Longrightarrow> tmatch nd ts vs ps = seg_match ts vs ps"
proof (induction ts vs ps arbitrary: nd rule: seg_match.induct)
  case (1 ps)
  then show ?case by simp
next
  case (2 t ts v vs ps)
  show ?case
  proof (cases "is_param t")
    case True
    let ?pn = "case param_child nd of None \<Rightarrow> RadixNode t | Some pn \<Rightarrow> pn"
    from "2.prems" True have seg: "segment ?pn = t" and f: "fits ?pn ts"
      by (auto split: option.splits)
    show ?thesis
      using True seg f "2.IH"(1) [OF True _ f]
      by (auto simp: Let_def split: option.splits)
  next
    case False
    let ?c = "case children nd t of None \<Rightarrow> RadixNode t | Some c \<Rightarrow> c"
    from "2.prems" False have f: "fits ?c ts"
      by (auto split: option.splits)
    show ?thesis
      using False "2.IH"(2) [OF False _ f] by auto
  qed
next
  case (3 v vs ps)
  then show ?case by simp
next
  case (4 t ts ps)
  then show ?case by simp
qed

lemma fits_insert_at:
  "compat ts ts' \<Longrightarrow> fits nd ts' \<Longrightarrow> fits (insert_at r ts nd) ts'"
proof (induction ts ts' arbitrary: nd rule: compat.induct)
  case (1 bs)
  then show ?case by (cases nd; cases bs) (auto split: option.splits)
next
  case (2 a as)
  then show ?case by simp
next
  case (3 a as b bs)
  obtain s ch pc rts where nd: "nd = Node s ch pc rts" by (cases nd)
  show ?case
  proof (cases "is_param a")
    case pa: True
    show ?thesis
    proof (cases "is_param b")
      case pb: True
      with pa "3.prems" have eq: "a = b" and c: "compat as bs" by auto
      let ?pn = "case pc of None \<Rightarrow> RadixNode a | Some pn \<Rightarrow> pn"
      from "3.prems"(2) pb have f: "fits ?pn bs"
        by (auto simp: nd split: option.splits)
      from "3.prems"(2) pb eq have seg: "segment ?pn = b"
        by (auto simp: nd split: option.splits)
      show ?thesis
        using pa pb seg "3.IH"(1) [OF _ c f] by (simp add: nd)
    next
      case False
      with pa "3.prems"(2) show ?thesis by (simp add: nd)
    qed
  next
    case na: False
    show ?thesis
    proof (cases "is_param b")
      case True
      with na "3.prems"(2) show ?thesis by (simp add: nd)
    next
      case nb: False
      show ?thesis
      proof (cases "a = b")
        case True
        with na nb "3.prems" have c: "compat as bs" by auto
        let ?c = "case ch a of None \<Rightarrow> RadixNode a | Some c \<Rightarrow> c"
        from "3.prems"(2) nb True have f: "fits ?c bs"
          by (auto simp: nd split: option.splits)
        show ?thesis
          using na nb True "3.IH"(2) [OF _ _ c f] by (auto simp: nd)
      next
        case False
        with na nb "3.prems"(2) show ?thesis by (simp add: nd)
      qed
    qed
  qed
qed

subsection \<open>Segments of a path\<close>

lemma split_on_no_sep: "s \<in> set (split_on c p) \<Longrightarrow> c \<notin> set s"
proof (induction p arbitrary: s)
  case Nil
  then show ?case by simp
next
  case (Cons x xs)
  then show ?case
    by (cases "split_on c xs") (auto split: if_splits)
qed

lemma split_on_not_Nil [simp]: "split_on c p \<noteq> []"
  by (induction p) (auto split: list.splits)

lemma split_on_chars: "x \<in> set p \<Longrightarrow> x = c \<or> (\<exists>s \<in> set (split_on c p). x \<in> set s)"
proof (induction p)
  case Nil
  then show ?case by simp
next
  case (Cons y ys)
  then show ?case
    by (cases "split_on c ys") (auto split: if_splits)
qed

lemma split_path_segment: "s \<in> set (split_path p) \<Longrightarrow> s \<noteq> [] \<and> CHR ''/'' \<notin> set s"
  by (auto simp: split_path_def dest: split_on_no_sep)

lemma slashed_simps [simp]:
  "slashed [] = []"
  "slashed (s # segs) = CHR ''/'' # s @ slashed segs"
  by (simp_all add: slashed_def)

lemma slashed_head: "slashed segs = [] \<or> hd (slashed segs) = CHR ''/''"
  by (cases segs) simp_all


subsection \<open>Tokens of a canonical template\<close>

text \<open>The text of a parametric segment, and the match of the pattern on it.\<close>

lemma match_param_at_shape:
  assumes "match_param_at s = Some (pname, ptype0, rest)"
  shows "s = CHR ''{'' # pname @ (case ptype0 of None \<Rightarrow> [] | Some ty \<Rightarrow> CHR '':'' # ty)
               @ CHR ''}'' # rest"
proof (cases s)
  case Nil
  with assms show ?thesis by (simp add: match_param_at_def)
next
  case (Cons c s1)
  have td: "takeWhile is_word_char s1 @ dropWhile is_word_char s1 = s1" by simp
  from assms Cons have c: "c = CHR ''{''"
    by (auto simp: match_param_at_def split: if_splits)
  show ?thesis
  proof (cases "dropWhile is_word_char s1")
    case Nil
    have "match_param_at s = None"
      by (simp add: match_param_at_def Let_def Cons Nil)
    with assms show ?thesis by simp
  next
    case r1: (Cons d r2)
    show ?thesis
    proof (cases "d = CHR ''}''")
      case True
      from assms True have "pname = takeWhile is_word_char s1 \<and> ptype0 = None \<and> rest = r2"
        by (simp add: match_param_at_def Let_def Cons r1 c split: if_splits)
      with td r1 True show ?thesis
        by (auto simp: Cons c)
    next
      case False
      have td2: "takeWhile is_word_char r2 @ dropWhile is_word_char r2 = r2" by simp
      show ?thesis
      proof (cases "dropWhile is_word_char r2")
        case Nil
        have "match_param_at s = None"
          using False by (simp add: match_param_at_def Let_def Cons r1 Nil)
        with assms show ?thesis by simp
      next
        case r3: (Cons e r4)
        from assms False have "d = CHR '':'' \<and> e = CHR ''}'' \<and> pname = takeWhile is_word_char s1
            \<and> ptype0 = Some (takeWhile is_word_char r2) \<and> rest = r4"
          by (simp add: match_param_at_def Let_def Cons r1 r3 c split: if_splits)
        with td td2 r1 r3 show ?thesis
          by (auto simp: Cons c)
      qed
    qed
  qed
qed

lemma match_param_at_append:
  assumes "match_param_at s = Some (pname, ptype0, rest)"
  shows "match_param_at (s @ sfx) = Some (pname, ptype0, rest @ sfx)"
proof (cases s)
  case Nil
  with assms show ?thesis by (simp add: match_param_at_def)
next
  case (Cons c s1)
  from assms Cons have c: "c = CHR ''{''"
    by (auto simp: match_param_at_def split: if_splits)
  show ?thesis
  proof (cases "dropWhile is_word_char s1")
    case Nil
    have "match_param_at s = None"
      by (simp add: match_param_at_def Let_def Cons Nil)
    with assms show ?thesis by simp
  next
    case r1: (Cons d r2)
    then have d: "d \<in> set s1" "\<not> is_word_char d"
      by (metis list.set_intros(1) set_dropWhileD, metis hd_dropWhile list.sel(1) list.simps(3))
    have t1: "takeWhile is_word_char (s1 @ sfx) = takeWhile is_word_char s1"
      using takeWhile_append1 [of d s1 is_word_char sfx] d by simp
    have d1: "dropWhile is_word_char (s1 @ sfx) = d # r2 @ sfx"
      using dropWhile_append1 [of d s1 is_word_char sfx] d r1 by simp
    show ?thesis
    proof (cases "d = CHR ''}''")
      case True
      with assms show ?thesis
        by (simp add: match_param_at_def Let_def Cons r1 c t1 d1 split: if_splits)
    next
      case False
      show ?thesis
      proof (cases "dropWhile is_word_char r2")
        case Nil
        have "match_param_at s = None"
          using False by (simp add: match_param_at_def Let_def Cons r1 Nil)
        with assms show ?thesis by simp
      next
        case r3: (Cons e r4)
        then have e: "e \<in> set r2" "\<not> is_word_char e"
          by (metis list.set_intros(1) set_dropWhileD, metis hd_dropWhile list.sel(1) list.simps(3))
        have t2: "takeWhile is_word_char (r2 @ sfx) = takeWhile is_word_char r2"
          using takeWhile_append1 [of e r2 is_word_char sfx] e by simp
        have d2: "dropWhile is_word_char (r2 @ sfx) = e # r4 @ sfx"
          using dropWhile_append1 [of e r2 is_word_char sfx] e r3 by simp
        from assms False show ?thesis
          by (simp add: match_param_at_def Let_def Cons r1 r3 c t1 d1 t2 d2 split: if_splits)
      qed
    qed
  qed
qed

lemma param_fullmatch_shape:
  assumes "param_fullmatch s = Some (pname, ptype0)"
  shows "s = CHR ''{'' # pname @ (case ptype0 of None \<Rightarrow> [] | Some ty \<Rightarrow> CHR '':'' # ty) @ ''}''"
    and "match_param_at (s @ sfx) = Some (pname, ptype0, sfx)"
proof -
  from assms have m: "match_param_at s = Some (pname, ptype0, [])"
    by (auto simp: param_fullmatch_def split: option.splits prod.splits if_splits)
  from match_param_at_shape [OF m]
  show "s = CHR ''{'' # pname @ (case ptype0 of None \<Rightarrow> [] | Some ty \<Rightarrow> CHR '':'' # ty) @ ''}''"
    by simp
  from match_param_at_append [OF m, of sfx]
  show "match_param_at (s @ sfx) = Some (pname, ptype0, sfx)" by simp
qed

lemma typed_segment_is_param:
  assumes "typed_segment s"
  shows "is_param s"
proof -
  from assms obtain pname ptype0 where "param_fullmatch s = Some (pname, ptype0)"
    by (auto simp: typed_segment_def split: option.splits)
  from param_fullmatch_shape(1) [OF this]
  show ?thesis
    by (simp add: is_param_def ends_with_def)
qed

lemma plain_segment_not_param:
  assumes "plain_segment s"
  shows "\<not> is_param s"
proof (cases s)
  case Nil
  with assms show ?thesis by (simp add: plain_segment_def)
next
  case (Cons c cs)
  with assms have "c \<noteq> CHR ''{''"
    by (auto simp: plain_segment_def special_char_def)
  with Cons show ?thesis by (simp add: is_param_def)
qed

lemma tokenize_plain:
  assumes "list_all (\<lambda>c. c \<noteq> CHR ''{'') s"
  shows "tokenize (s @ sfx) = map Lit s @ tokenize sfx"
  using assms
proof (induction s)
  case Nil
  then show ?case by simp
next
  case (Cons c s)
  then have "match_param_at (c # s @ sfx) = None"
    by (simp add: match_param_at_def)
  with Cons show ?case by simp
qed

lemma tokenize_typed:
  assumes "param_fullmatch s = Some (pname, ptype0)"
  shows "tokenize (s @ sfx)
           = Param pname (case ptype0 of Some t \<Rightarrow> t | None \<Rightarrow> ''str'') # tokenize sfx"
proof -
  from param_fullmatch_shape(1) [OF assms] obtain s1 where s: "s = CHR ''{'' # s1" by simp
  from param_fullmatch_shape(2) [OF assms, of sfx]
  have "match_param_at (CHR ''{'' # s1 @ sfx) = Some (pname, ptype0, sfx)"
    by (simp add: s)
  then show ?thesis by (simp add: s)
qed

subsection \<open>The compiled pattern on a canonical path\<close>

lemma regex_match_literals:
  "regex_match (map Lit t @ toks) s
     = (if starts_with s t then regex_match toks (drop (length t) s) else None)"
proof (induction t arbitrary: s)
  case Nil
  then show ?case by simp
next
  case (Cons c t)
  then show ?case by (cases s) auto
qed

lemma starts_with_append_iff:
  "starts_with s t \<longleftrightarrow> take (length t) s = t"
proof (induction s t rule: starts_with.induct)
  case (1 s)
  then show ?case by simp
next
  case (2 p ps)
  then show ?case by simp
next
  case (3 x xs p ps)
  then show ?case by auto
qed

lemma first_some_all_None:
  assumes "\<forall>k \<in> set ks. f k = None"
  shows "first_some (map f ks) = None"
  using assms by (induction ks) auto

lemma first_some_only:
  assumes "k0 \<in> set ks" and "\<forall>k \<in> set ks. k \<noteq> k0 \<longrightarrow> f k = None"
  shows "first_some (map f ks) = f k0"
  using assms
proof (induction ks)
  case Nil
  then show ?case by simp
next
  case (Cons k ks)
  show ?case
  proof (cases "k = k0")
    case True
    show ?thesis
    proof (cases "f k0")
      case None
      have "first_some (map f ks) = None"
      proof (rule first_some_all_None, rule ballI)
        fix j assume "j \<in> set ks"
        with Cons.prems(2) None show "f j = None" by (cases "j = k0") auto
      qed
      with True None show ?thesis by simp
    next
      case (Some a)
      with True show ?thesis by simp
    qed
  next
    case False
    with Cons.prems have "f k = None" and "k0 \<in> set ks" by auto
    with Cons show ?thesis by simp
  qed
qed

lemma list_all_parts_chars:
  assumes "list_all (list_all P) (split_on c x)" and "y \<in> set x" and "y \<noteq> c"
  shows "P y"
proof -
  from split_on_chars [OF assms(2), of c] assms(3)
  obtain s where "s \<in> set (split_on c x)" "y \<in> set s" by auto
  with assms(1) show ?thesis by (auto simp: list_all_iff)
qed

lemma type_fullmatch_no_slash:
  assumes "ty \<in> set [''int'', ''str'', ''uuid'', ''slug'']" and "type_fullmatch ty x"
  shows "CHR ''/'' \<notin> set x"
proof
  assume sl: "CHR ''/'' \<in> set x"
  from assms(1) consider "ty = ''int''" | "ty = ''str''" | "ty = ''uuid''" | "ty = ''slug''"
    by auto
  then show False
  proof cases
    case 1
    with assms(2) sl have "is_digit CHR ''/''"
      by (auto simp: type_fullmatch_def list_all_iff)
    then show False by (simp add: is_digit_def)
  next
    case 2
    with assms(2) sl show False
      by (simp add: type_fullmatch_def str_fullmatch_def)
  next
    case 3
    with assms(2) have "list_all (list_all is_hex_char) (split_on CHR ''-'' x)"
      by (simp add: type_fullmatch_def is_uuid_def)
    from list_all_parts_chars [OF this sl] have "is_hex_char CHR ''/''" by simp
    then show False by (simp add: is_hex_char_def)
  next
    case 4
    with assms(2) have "list_all (\<lambda>part. part \<noteq> [] \<and> list_all is_slug_char part) (split_on CHR ''-'' x)"
      by (simp add: type_fullmatch_def is_slug_def)
    then have "list_all (list_all is_slug_char) (split_on CHR ''-'' x)"
      by (simp add: list_all_iff)
    from list_all_parts_chars [OF this sl] have "is_slug_char CHR ''/''" by simp
    then show False by (simp add: is_slug_char_def)
  qed
qed

lemma tokenize_slashed_Cons:
  "tokenize (slashed (t # ts)) = Lit CHR ''/'' # tokenize (t @ slashed ts)"
proof -
  have "match_param_at (CHR ''/'' # t @ slashed ts) = None"
    by (simp add: match_param_at_def)
  then show ?thesis by simp
qed

text \<open>
  After a proper prefix of a path segment has been consumed, nothing of a
  canonical template can match what is left.
\<close>

lemma regex_match_dead:
  assumes "c \<noteq> CHR ''/''" and "c # w \<noteq> [CHR 0x0A]"
  shows "regex_match (tokenize (slashed ts)) (c # w) = None"
proof (cases ts)
  case Nil
  with assms show ?thesis by simp
next
  case (Cons t ts')
  with assms show ?thesis
    by (simp add: tokenize_slashed_Cons del: slashed_simps)
qed


lemma regex_match_static_segment:
  assumes "plain_segment t" and "v \<noteq> []" and "CHR ''/'' \<notin> set v"
    and "last (v @ slashed vs) \<noteq> CHR 0x0A"
  shows "regex_match (map Lit t @ tokenize (slashed ts)) (v @ slashed vs)
           = (if t = v then regex_match (tokenize (slashed ts)) (slashed vs) else None)"
proof (cases "t = v")
  case True
  then show ?thesis
    by (simp add: regex_match_literals starts_with_append_iff)
next
  case False
  have "regex_match (map Lit t @ tokenize (slashed ts)) (v @ slashed vs) = None"
  proof (cases "starts_with (v @ slashed vs) t")
    case no: False
    then show ?thesis by (simp add: regex_match_literals)
  next
    case True
    then have tk: "take (length t) (v @ slashed vs) = t"
      by (simp add: starts_with_append_iff)
    have "length t < length v"
    proof (rule ccontr)
      assume "\<not> length t < length v"
      then have ge: "length v \<le> length t" by simp
      define n where "n = length t - length v"
      have "take (length t) (v @ slashed vs) = v @ take n (slashed vs)"
        using ge by (simp add: n_def)
      with tk [symmetric] have t: "t = v @ take n (slashed vs)"
        by (rule trans)
      with False have ne: "take n (slashed vs) \<noteq> []" by auto
      then have "slashed vs \<noteq> []" by auto
      with slashed_head [of vs] obtain w where w: "slashed vs = CHR ''/'' # w"
        by (cases "slashed vs") auto
      from ne w have "CHR ''/'' \<in> set (take n (slashed vs))"
        by (cases n) auto
      with t have "CHR ''/'' \<in> set t" by simp
      with assms(1) show False
        by (auto simp: plain_segment_def special_char_def list_all_iff)
    qed
    then obtain c w where d: "drop (length t) v = c # w"
      by (cases "drop (length t) v") auto
    then have "c \<in> set v" by (metis in_set_dropD list.set_intros(1))
    with assms(3) have c: "c \<noteq> CHR ''/''" by auto
    have l: "last (v @ slashed vs) = last (c # w @ slashed vs)"
    proof -
      have "take (length t) v @ c # w = v"
        using append_take_drop_id [of "length t" v] d by simp
      then have "last (v @ slashed vs) = last ((take (length t) v @ c # w) @ slashed vs)"
        by simp
      also have "\<dots> = last (c # w @ slashed vs)" by simp
      finally show ?thesis .
    qed
    have nl: "c # w @ slashed vs \<noteq> [CHR 0x0A]"
      using assms(4) l by auto
    have "drop (length t) (v @ slashed vs) = c # w @ slashed vs"
      using d \<open>length t < length v\<close> by simp
    with True regex_match_dead [OF c nl, of ts] show ?thesis
      by (simp add: regex_match_literals)
  qed
  with False show ?thesis by simp
qed

lemma regex_match_typed_segment:
  assumes "ty \<in> set [''int'', ''str'', ''uuid'', ''slug'']" and "v \<noteq> []"
    and "CHR ''/'' \<notin> set v" and "last (v @ slashed vs) \<noteq> CHR 0x0A"
  shows "regex_match (Param pname ty # tokenize (slashed ts)) (v @ slashed vs)
           = (if type_fullmatch ty v
              then map_option (\<lambda>groups. (pname, ty, v) # groups)
                     (regex_match (tokenize (slashed ts)) (slashed vs))
              else None)"
proof -
  let ?s = "v @ slashed vs"
  let ?f = "\<lambda>k. if type_fullmatch ty (take k ?s)
                 then map_option (\<lambda>groups. (pname, ty, take k ?s) # groups)
                        (regex_match (tokenize (slashed ts)) (drop k ?s))
                 else None"
  have "1 \<le> length v" using assms(2) by (cases v) simp_all
  moreover have "length v < Suc (length ?s)" by simp
  ultimately have mem: "length v \<in> set (rev [1 ..< Suc (length ?s)])"
    by simp
  have others: "\<forall>k \<in> set (rev [1 ..< Suc (length ?s)]). k \<noteq> length v \<longrightarrow> ?f k = None"
  proof (intro ballI impI)
    fix k assume k: "k \<in> set (rev [1 ..< Suc (length ?s)])" and neq: "k \<noteq> length v"
    show "?f k = None"
    proof (cases "k < length v")
      case True
      from True obtain c w where d: "drop k v = c # w"
        by (cases "drop k v") auto
      then have "c \<in> set v" by (metis in_set_dropD list.set_intros(1))
      with assms(3) have c: "c \<noteq> CHR ''/''" by auto
      have "take k v @ c # w = v"
        using append_take_drop_id [of k v] d by simp
      then have "last ?s = last ((take k v @ c # w) @ slashed vs)"
        by simp
      also have "\<dots> = last (c # w @ slashed vs)" by simp
      finally have "last ?s = last (c # w @ slashed vs)" .
      with assms(4) have nl: "c # w @ slashed vs \<noteq> [CHR 0x0A]" by auto
      have "drop k ?s = c # w @ slashed vs"
        using d True by simp
      with regex_match_dead [OF c nl, of ts] show ?thesis by simp
    next
      case False
      with neq have gt: "length v < k" by simp
      from k have "k < Suc (length ?s)"
        by (simp only: set_rev set_upt atLeastLessThan_iff)
      then have "k \<le> length v + length (slashed vs)"
        by (simp only: less_Suc_eq_le length_append)
      with gt have "length (slashed vs) \<noteq> 0" by linarith
      then have "slashed vs \<noteq> []" by simp
      with slashed_head [of vs] obtain w where w: "slashed vs = CHR ''/'' # w"
        by (cases "slashed vs") auto
      from gt have "take k ?s = v @ take (k - length v) (slashed vs)" by simp
      moreover from gt w have "CHR ''/'' \<in> set (take (k - length v) (slashed vs))"
        by (cases "k - length v") auto
      ultimately have "CHR ''/'' \<in> set (take k ?s)" by simp
      with type_fullmatch_no_slash [OF assms(1)] have "\<not> type_fullmatch ty (take k ?s)"
        by blast
      then show ?thesis by simp
    qed
  qed
  have "regex_match (Param pname ty # tokenize (slashed ts)) ?s
      = first_some (map ?f (rev [1 ..< Suc (length ?s)]))"
    by simp
  also have "\<dots> = ?f (length v)"
    using mem others by (rule first_some_only)
  finally show ?thesis by simp
qed

lemma regex_match_slashed:
  assumes "\<forall>t \<in> set ts. plain_segment t \<or> typed_segment t"
    and "\<forall>v \<in> set vs. v \<noteq> [] \<and> CHR ''/'' \<notin> set v"
    and "slashed vs = [] \<or> last (slashed vs) \<noteq> CHR 0x0A"
  shows "regex_match (tokenize (slashed ts)) (slashed vs) = seg_groups ts vs"
  using assms
proof (induction ts arbitrary: vs)
  case Nil
  then show ?case by (cases vs) simp_all
next
  case (Cons t ts)
  show ?case
  proof (cases vs)
    case Nil
    then show ?thesis
      by (simp add: tokenize_slashed_Cons del: slashed_simps(2))
  next
    case vs: (Cons v vs')
    from Cons.prems(2) vs have v: "v \<noteq> []" "CHR ''/'' \<notin> set v"
      and vs': "\<forall>v \<in> set vs'. v \<noteq> [] \<and> CHR ''/'' \<notin> set v"
      by auto
    from Cons.prems(3) vs have nl: "last (v @ slashed vs') \<noteq> CHR 0x0A"
      using v by (auto split: if_splits)
    then have nl': "slashed vs' = [] \<or> last (slashed vs') \<noteq> CHR 0x0A"
      by (auto split: if_splits)
    from Cons.prems(1) have ts: "\<forall>t \<in> set ts. plain_segment t \<or> typed_segment t" by simp
    note IH = Cons.IH [OF ts vs' nl']
    have "regex_match (tokenize (slashed (t # ts))) (slashed (v # vs'))
        = regex_match (Lit CHR ''/'' # tokenize (t @ slashed ts)) (CHR ''/'' # v @ slashed vs')"
      unfolding tokenize_slashed_Cons by (simp only: slashed_simps)
    then have step: "regex_match (tokenize (slashed (t # ts))) (slashed (v # vs'))
        = regex_match (tokenize (t @ slashed ts)) (v @ slashed vs')"
      by simp
    from Cons.prems(1) consider "plain_segment t" | "typed_segment t" by auto
    then show ?thesis
    proof cases
      case 1
      then have "list_all (\<lambda>c. c \<noteq> CHR ''{'') t"
        by (auto simp: plain_segment_def special_char_def list_all_iff)
      then have tok: "tokenize (t @ slashed ts) = map Lit t @ tokenize (slashed ts)"
        by (rule tokenize_plain)
      show ?thesis
        unfolding vs step tok
        using regex_match_static_segment [OF 1 v nl, of ts] IH plain_segment_not_param [OF 1]
        by simp
    next
      case 2
      then obtain pname ptype0 where pf: "param_fullmatch t = Some (pname, ptype0)"
        by (auto simp: typed_segment_def split: option.splits)
      let ?ty = "case ptype0 of Some ty \<Rightarrow> ty | None \<Rightarrow> ''str''"
      from 2 pf have ty: "?ty \<in> set [''int'', ''str'', ''uuid'', ''slug'']"
        by (auto simp: typed_segment_def split: option.splits)
      have tok: "tokenize (t @ slashed ts) = Param pname ?ty # tokenize (slashed ts)"
        using pf by (rule tokenize_typed)
      show ?thesis
        unfolding vs step tok
        using regex_match_typed_segment [OF ty v nl, of pname ts] IH
          typed_segment_is_param [OF 2] pf
        by (simp add: Let_def)
    qed
  qed
qed

lemma seg_groups_convert:
  "(case seg_groups ts vs of None \<Rightarrow> None | Some groups \<Rightarrow> convert_groups groups ps)
     = seg_match ts vs ps"
proof (induction ts vs ps rule: seg_match.induct)
  case (1 ps)
  then show ?case by simp
next
  case (2 t ts v vs ps)
  show ?case
  proof (cases "is_param t")
    case True
    show ?thesis
    proof (cases "param_fullmatch t")
      case None
      with True show ?thesis by (simp add: bind_param_def)
    next
      case (Some a)
      obtain pname ptype0 where a: "a = (pname, ptype0)" by (cases a)
      let ?ty = "case ptype0 of Some ty \<Rightarrow> ty | None \<Rightarrow> ''str''"
      show ?thesis
      proof (cases "type_fullmatch ?ty v")
        case no: False
        with True Some a show ?thesis by (simp add: bind_param_def Let_def)
      next
        case yes: True
        show ?thesis
        proof (cases "convert ?ty v")
          case None
          with True Some a yes show ?thesis
            by (simp add: bind_param_def Let_def split: option.splits)
        next
          case pv: (Some pv)
          then have b: "bind_param t v ps = Some (ps(pname \<mapsto> pv))"
            using Some a yes by (simp add: bind_param_def Let_def)
          have l: "seg_groups (t # ts) (v # vs)
              = map_option (\<lambda>groups. (pname, ?ty, v) # groups) (seg_groups ts vs)"
            using True Some a yes by (simp add: Let_def)
          have "(case seg_groups (t # ts) (v # vs) of None \<Rightarrow> None
                 | Some groups \<Rightarrow> convert_groups groups ps)
              = (case seg_groups ts vs of None \<Rightarrow> None
                 | Some groups \<Rightarrow> convert_groups groups (ps(pname \<mapsto> pv)))"
            unfolding l using pv by (cases "seg_groups ts vs") simp_all
          also have "\<dots> = seg_match ts vs (ps(pname \<mapsto> pv))"
            by (rule "2.IH"(1) [OF True b])
          also have "\<dots> = seg_match (t # ts) (v # vs) ps"
            using True b by simp
          finally show ?thesis .
        qed
      qed
    qed
  next
    case False
    with "2.IH"(2) show ?thesis by auto
  qed
next
  case (3 v vs ps)
  then show ?case by simp
next
  case (4 t ts ps)
  then show ?case by simp
qed

subsection \<open>Route.match on canonical input is the segment-wise match\<close>

lemma tokenize_segment_not_Nil:
  assumes "plain_segment t \<or> typed_segment t"
  shows "regex_match (tokenize (t @ sfx)) [] = None"
proof -
  from assms consider "plain_segment t" | "typed_segment t" by auto
  then show ?thesis
  proof cases
    case 1
    then have "list_all (\<lambda>c. c \<noteq> CHR ''{'') t"
      by (auto simp: plain_segment_def special_char_def list_all_iff)
    from tokenize_plain [OF this, of sfx] 1 show ?thesis
      by (cases t) (simp_all add: plain_segment_def)
  next
    case 2
    then obtain pname ptype0 where "param_fullmatch t = Some (pname, ptype0)"
      by (auto simp: typed_segment_def split: option.splits)
    from tokenize_typed [OF this, of sfx] show ?thesis by simp
  qed
qed

lemma regex_match_canonical:
  assumes "wf_template t" and "wf_path p"
  shows "regex_match (tokenize t) p = seg_groups (split_path t) (split_path p)"
proof -
  let ?ts = "split_path t" and ?vs = "split_path p"
  from assms have t: "t = canon ?ts" and p: "p = canon ?vs" and nl: "last p \<noteq> CHR 0x0A"
    and wts: "\<forall>s \<in> set ?ts. plain_segment s \<or> typed_segment s"
    by (auto simp: wf_template_def wf_path_def list_all_iff)
  have wvs: "\<forall>v \<in> set ?vs. v \<noteq> [] \<and> CHR ''/'' \<notin> set v"
    using split_path_segment by blast
  have root: "tokenize ''/'' = [Lit CHR ''/'']"
    by (simp add: match_param_at_def)
  show ?thesis
  proof (cases ?ts)
    case tn: Nil
    then have t': "t = ''/''" using t by (simp add: canon_def)
    show ?thesis
    proof (cases ?vs)
      case Nil
      then have "p = ''/''" using p by (simp add: canon_def)
      moreover have "regex_match [Lit CHR ''/''] ''/'' = Some []" by simp
      ultimately show ?thesis unfolding t' root using tn Nil by simp
    next
      case (Cons v vs')
      then have p': "p = CHR ''/'' # v @ slashed vs'"
        using p by (simp add: canon_def)
      from wvs Cons have v: "v \<noteq> []" by simp
      then have "last p = last (v @ slashed vs')"
        by (simp add: p')
      with nl v have "v @ slashed vs' \<noteq> [] \<and> v @ slashed vs' \<noteq> [CHR 0x0A]"
        by auto
      then have "regex_match [Lit CHR ''/''] (CHR ''/'' # v @ slashed vs') = None"
        by simp
      then have "regex_match (tokenize t) p = None"
        unfolding t' root p' .
      with tn Cons show ?thesis by simp
    qed
  next
    case tc: (Cons t1 ts')
    then have t': "t = slashed (t1 # ts')" using t by (simp add: canon_def)
    show ?thesis
    proof (cases ?vs)
      case Nil
      then have p': "p = ''/''" using p by (simp add: canon_def)
      from wts tc have "plain_segment t1 \<or> typed_segment t1" by simp
      from tokenize_segment_not_Nil [OF this, of "slashed ts'"]
      have "regex_match (tokenize t) p = None"
        unfolding t' tokenize_slashed_Cons p' by simp
      with tc Nil show ?thesis by simp
    next
      case (Cons v vs')
      then have p': "p = slashed ?vs" using p by (simp add: canon_def)
      have "regex_match (tokenize (slashed ?ts)) (slashed ?vs) = seg_groups ?ts ?vs"
      proof (rule regex_match_slashed [OF wts wvs])
        show "slashed ?vs = [] \<or> last (slashed ?vs) \<noteq> CHR 0x0A"
          using nl p' by simp
      qed
      moreover have "t = slashed ?ts" using t' tc by simp
      ultimately show ?thesis using p' by simp
    qed
  qed
qed

lemma route_match_canonical:
  assumes "wf_template (route_path r)" and "wf_path p"
  shows "route_match r p = seg_match (split_path (route_path r)) (split_path p) Map.empty"
  unfolding route_match_def regex_match_canonical [OF assms]
  by (rule seg_groups_convert)

subsection \<open>The candidates of a tree built from a route list\<close>

lemma cands_foldl_insert:
  assumes "\<forall>r \<in> set rs. fits t0 (split_path (route_path r))"
    and "\<forall>r \<in> set rs. \<forall>r' \<in> set rs.
           compat (split_path (route_path r)) (split_path (route_path r'))"
  shows "set (cands (foldl (\<lambda>t r. tree_insert r t) t0 rs) vs ps)
           = set (cands t0 vs ps)
             \<union> {(r, ps'). r \<in> set rs \<and> seg_match (split_path (route_path r)) vs ps = Some ps'}"
  using assms
proof (induction rs arbitrary: t0)
  case Nil
  then show ?case by simp
next
  case (Cons r rs)
  let ?t1 = "tree_insert r t0"
  have f1: "\<forall>r' \<in> set rs. fits ?t1 (split_path (route_path r'))"
  proof
    fix r' assume r': "r' \<in> set rs"
    with Cons.prems have "compat (split_path (route_path r)) (split_path (route_path r'))"
      and "fits t0 (split_path (route_path r'))"
      by auto
    then show "fits ?t1 (split_path (route_path r'))"
      unfolding tree_insert_def by (rule fits_insert_at)
  qed
  have c1: "\<forall>a \<in> set rs. \<forall>b \<in> set rs.
      compat (split_path (route_path a)) (split_path (route_path b))"
    using Cons.prems(2) by simp
  have "fits t0 (split_path (route_path r))"
    using Cons.prems(1) by simp
  then have ins: "set (cands ?t1 vs ps) = set (cands t0 vs ps)
      \<union> (case seg_match (split_path (route_path r)) vs ps of
           Some ps' \<Rightarrow> {(r, ps')} | None \<Rightarrow> {})"
    unfolding tree_insert_def by (simp add: cands_insert_at tmatch_fits)
  let ?M = "\<lambda>a ps'. seg_match (split_path (route_path a)) vs ps = Some ps'"
  have X: "(case seg_match (split_path (route_path r)) vs ps of
              Some ps' \<Rightarrow> {(r, ps')} | None \<Rightarrow> {})
      = {(a, ps'). a = r \<and> ?M a ps'}"
    by (cases "seg_match (split_path (route_path r)) vs ps") auto
  have U: "{(a, ps'). a \<in> set (r # rs) \<and> ?M a ps'}
      = {(a, ps'). a = r \<and> ?M a ps'} \<union> {(a, ps'). a \<in> set rs \<and> ?M a ps'}"
    by auto
  have "set (cands (foldl (\<lambda>t r. tree_insert r t) t0 (r # rs)) vs ps)
      = set (cands ?t1 vs ps) \<union> {(a, ps'). a \<in> set rs \<and> ?M a ps'}"
    using Cons.IH [OF f1 c1] by simp
  also have "\<dots> = set (cands t0 vs ps)
      \<union> ({(a, ps'). a = r \<and> ?M a ps'} \<union> {(a, ps'). a \<in> set rs \<and> ?M a ps'})"
    unfolding ins X by (rule Un_assoc)
  finally show ?case
    unfolding U .
qed

lemma cands_build_tree:
  assumes "wf_routes rs" and "wf_path p"
  shows "set (cands (build_tree rs) (split_path p) Map.empty)
           = {(r, ps). r \<in> set rs \<and> route_match r p = Some ps}"
proof -
  from assms(1) have c: "\<forall>r \<in> set rs. \<forall>r' \<in> set rs.
      compat (split_path (route_path r)) (split_path (route_path r'))"
    and w: "\<forall>r \<in> set rs. wf_template (route_path r)"
    by (auto simp: wf_routes_def list_all_iff)
  have "set (cands (build_tree rs) (split_path p) Map.empty)
      = {(r, ps'). r \<in> set rs
           \<and> seg_match (split_path (route_path r)) (split_path p) Map.empty = Some ps'}"
    unfolding build_tree_def
    using cands_foldl_insert [OF _ c, of "RadixNode []" "split_path p" Map.empty]
    by simp
  also have "\<dots> = {(r, ps). r \<in> set rs \<and> route_match r p = Some ps}"
  proof -
    have "\<And>r. r \<in> set rs \<Longrightarrow>
        seg_match (split_path (route_path r)) (split_path p) Map.empty = route_match r p"
      using w route_match_canonical [OF _ assms(2)] by simp
    then show ?thesis by auto
  qed
  finally show ?thesis .
qed

subsection \<open>The two scans\<close>

lemma scan_cands_found:
  assumes "scan_cands m cs mm = Inr (r, ps)"
  shows "(r, ps) \<in> set cs \<and> m \<in> route_methods r"
  using assms
  by (induction m cs mm rule: scan_cands.induct) (auto split: if_splits option.splits)

lemma scan_cands_finds:
  assumes "(r, ps) \<in> set cs" and "m \<in> route_methods r"
  shows "\<exists>x. scan_cands m cs mm = Inr x"
  using assms
  by (induction m cs mm rule: scan_cands.induct) auto

lemma scan_cands_fails:
  assumes "\<forall>(r, ps) \<in> set cs. m \<notin> route_methods r"
  shows "scan_cands m cs mm
           = Inl (if cs \<noteq> [] \<or> mm \<noteq> None then MethodNotAllowed else NotFound)"
  using assms
  by (induction m cs mm rule: scan_cands.induct) (auto split: option.splits)

lemma linear_scan_found:
  assumes "linear_scan rs p m b = Inr (r, ps)"
  shows "r \<in> set rs \<and> m \<in> route_methods r \<and> route_match r p = Some ps"
  using assms
  by (induction rs p m b rule: linear_scan.induct) (auto split: option.splits if_splits)

lemma linear_scan_finds:
  assumes "r \<in> set rs" and "m \<in> route_methods r" and "route_match r p = Some ps"
  shows "\<exists>x. linear_scan rs p m b = Inr x"
  using assms
  by (induction rs p m b rule: linear_scan.induct) (auto split: option.splits)

lemma linear_scan_fails:
  assumes "\<forall>r \<in> set rs. route_match r p \<noteq> None \<longrightarrow> m \<notin> route_methods r"
  shows "linear_scan rs p m b
           = Inl (if b \<or> (\<exists>r \<in> set rs. route_match r p \<noteq> None)
                  then MethodNotAllowed else NotFound)"
  using assms
  by (induction rs p m b rule: linear_scan.induct) (auto split: option.splits)

subsection \<open>Static branches first\<close>

lemma static_routes_simps [simp]:
  "static_routes nd [] = routes nd"
  "static_routes nd (v # vs) = (case children nd v of None \<Rightarrow> [] | Some c \<Rightarrow> static_routes c vs)"
  by (simp_all add: static_routes_def split: option.splits)

lemma static_routes_RadixNode [simp]: "static_routes (RadixNode s) vs = []"
  by (cases vs) (simp_all add: RadixNode_def)

lemma cands_static_first:
  "\<exists>rest. cands nd vs ps = map (\<lambda>r. (r, ps)) (static_routes nd vs) @ rest"
proof (induction vs arbitrary: nd)
  case Nil
  then show ?case by simp
next
  case (Cons v vs)
  show ?case
  proof (cases "children nd v")
    case None
    then show ?thesis by (simp add: cands_Cons)
  next
    case (Some c)
    from Cons.IH [of c] obtain rest where "cands c vs ps = map (\<lambda>r. (r, ps)) (static_routes c vs) @ rest"
      by blast
    with Some show ?thesis by (simp add: cands_Cons)
  qed
qed

lemma static_routes_insert_at:
  assumes "\<forall>v \<in> set vs. \<not> is_param v"
  shows "static_routes (insert_at r ts nd) vs
           = static_routes nd vs @ (if ts = vs then [r] else [])"
  using assms
proof (induction ts arbitrary: nd vs)
  case Nil
  show ?case by (cases nd; cases vs) simp_all
next
  case (Cons t ts)
  obtain s ch pc rts where nd: "nd = Node s ch pc rts" by (cases nd)
  show ?case
  proof (cases vs)
    case Nil
    then show ?thesis by (simp add: nd)
  next
    case vs: (Cons v vs')
    with Cons.prems have nv: "\<not> is_param v" and nvs: "\<forall>v \<in> set vs'. \<not> is_param v"
      by auto
    show ?thesis
    proof (cases "is_param t")
      case True
      with nv have "t \<noteq> v" by auto
      with True show ?thesis by (simp add: nd vs)
    next
      case False
      show ?thesis
      proof (cases "t = v")
        case True
        let ?c = "case ch t of None \<Rightarrow> RadixNode t | Some c \<Rightarrow> c"
        have "static_routes (insert_at r (t # ts) nd) (v # vs') = static_routes (insert_at r ts ?c) vs'"
          using False True by (auto simp: nd)
        also have "\<dots> = static_routes ?c vs' @ (if ts = vs' then [r] else [])"
          by (rule Cons.IH [OF nvs])
        also have "static_routes ?c vs' = static_routes nd (v # vs')"
          using True by (simp add: nd split: option.splits)
        finally show ?thesis using True by (simp add: vs)
      next
        case neq: False
        with False show ?thesis by (simp add: nd vs)
      qed
    qed
  qed
qed

lemma static_routes_foldl:
  assumes "\<forall>v \<in> set vs. \<not> is_param v"
  shows "static_routes (foldl (\<lambda>t r. tree_insert r t) t0 rs) vs
           = static_routes t0 vs @ filter (\<lambda>r. split_path (route_path r) = vs) rs"
proof (induction rs arbitrary: t0)
  case Nil
  then show ?case by simp
next
  case (Cons r rs)
  have "static_routes (tree_insert r t0) vs
      = static_routes t0 vs @ (if split_path (route_path r) = vs then [r] else [])"
    by (simp add: tree_insert_def static_routes_insert_at [OF assms])
  then show ?case
    by (simp add: Cons.IH)
qed

lemma static_routes_build_tree:
  assumes "\<forall>v \<in> set vs. \<not> is_param v"
  shows "static_routes (build_tree rs) vs = filter (\<lambda>r. split_path (route_path r) = vs) rs"
  by (simp add: build_tree_def static_routes_foldl [OF assms])

lemma scan_cands_prefix:
  assumes "x \<in> set xs" and "m \<in> route_methods x"
  shows "\<exists>x' \<in> set xs. m \<in> route_methods x'
           \<and> scan_cands m (map (\<lambda>r. (r, ps)) xs @ rest) mm = Inr (x', ps)"
  using assms
proof (induction xs arbitrary: mm)
  case Nil
  then show ?case by simp
next
  case (Cons a xs)
  show ?case
  proof (cases "m \<in> route_methods a")
    case True
    then show ?thesis by auto
  next
    case False
    with Cons.prems have "x \<in> set xs" by auto
    from Cons.IH [OF this Cons.prems(2)] False show ?thesis by auto
  qed
qed

lemma seg_match_plain:
  assumes "\<forall>t \<in> set ts. \<not> is_param t"
  shows "seg_match ts vs ps = (if ts = vs then Some ps else None)"
  using assms
  by (induction ts vs ps rule: seg_match.induct) auto

subsection \<open>Radix-tree resolution against the linear scan\<close>

text \<open>
  Claim C1, as far as it holds. \<open>linear_scan\<close> is the specification: the
  registered routes in order, each tried with \<open>Route.match\<close>, the first one
  that matches the path and allows the method. A route set is well formed
  when every template is canonical (a slash before each segment, none empty,
  \<open>/\<close> alone for the root), every segment is either static text without
  pattern operators or a single \<open>{name}\<close> or \<open>{name:type}\<close> of type int, str,
  uuid or slug, and two templates that are parametric at the same position
  after the same prefix carry the same text there. A request path is well
  formed when it is canonical and does not end with a newline. For such route
  sets and paths, and every method:

  \<^item> a route returned by \<open>RadixTree.search\<close> is a registered route that allows
    the method, with exactly the parameters \<open>Route.match\<close> gives for it;
  \<^item> the search returns a route if and only if the linear scan does, and
    fails with the same error otherwise;
  \<^item> it fails with method-not-allowed exactly when some route matches the
    path and no route matching the path allows the method, and with
    not-found exactly when no route matches the path;
  \<^item> when at most one registered route matches the path and allows the
    method, the search and the linear scan return the same result;
  \<^item> a matching route without parameters wins: the search returns a route
    of the same template with no parameters, whatever parametric routes were
    registered before it.
\<close>

theorem radix_search_refines_linear_scan:
  assumes "wf_routes rs" and "wf_path p"
  shows "(\<forall>r ps. tree_search (build_tree rs) p m = Inr (r, ps) \<longrightarrow>
            r \<in> set rs \<and> m \<in> route_methods r \<and> route_match r p = Some ps)
    \<and> ((\<exists>x. tree_search (build_tree rs) p m = Inr x) \<longleftrightarrow> (\<exists>x. linear_scan rs p m False = Inr x))
    \<and> (\<forall>e. tree_search (build_tree rs) p m = Inl e \<longleftrightarrow> linear_scan rs p m False = Inl e)
    \<and> (tree_search (build_tree rs) p m = Inl MethodNotAllowed \<longleftrightarrow>
         (\<exists>r \<in> set rs. route_match r p \<noteq> None)
         \<and> (\<forall>r \<in> set rs. route_match r p \<noteq> None \<longrightarrow> m \<notin> route_methods r))
    \<and> (tree_search (build_tree rs) p m = Inl NotFound \<longleftrightarrow>
         (\<forall>r \<in> set rs. route_match r p = None))
    \<and> ((\<forall>r r'. r \<in> set rs \<and> r' \<in> set rs \<and> m \<in> route_methods r \<and> m \<in> route_methods r'
              \<and> route_match r p \<noteq> None \<and> route_match r' p \<noteq> None \<longrightarrow> r = r')
         \<longrightarrow> tree_search (build_tree rs) p m = linear_scan rs p m False)
    \<and> (\<forall>r. r \<in> set rs \<and> m \<in> route_methods r \<and> route_match r p \<noteq> None
              \<and> list_all plain_segment (split_path (route_path r))
         \<longrightarrow> (\<exists>r'. tree_search (build_tree rs) p m = Inr (r', Map.empty)
                   \<and> r' \<in> set rs \<and> route_path r' = route_path r))"
proof -
  define C where "C = cands (build_tree rs) (split_path p) Map.empty"
  define T where "T = tree_search (build_tree rs) p m"
  define L where "L = linear_scan rs p m False"
  have T: "T = scan_cands m C None"
    by (simp add: T_def C_def tree_search_cands)
  have C: "\<And>r ps. (r, ps) \<in> set C \<longleftrightarrow> r \<in> set rs \<and> route_match r p = Some ps"
    unfolding C_def cands_build_tree [OF assms] by simp
  have found: "r \<in> set rs \<and> m \<in> route_methods r \<and> route_match r p = Some ps"
    if "T = Inr (r, ps)" for r ps
    using scan_cands_found [of m C None r ps] that T C by simp
  have T_of_L: "\<exists>x. T = Inr x" if "L = Inr x" for x
  proof -
    obtain r ps where x: "x = (r, ps)" by (cases x)
    from linear_scan_found [of rs p m False r ps] that x
    have "r \<in> set rs" "m \<in> route_methods r" "route_match r p = Some ps"
      by (simp_all add: L_def)
    then have "(r, ps) \<in> set C" using C by simp
    from scan_cands_finds [OF this \<open>m \<in> route_methods r\<close>, of None] T show ?thesis by simp
  qed
  have L_of_T: "\<exists>x. L = Inr x" if "T = Inr x" for x
  proof -
    obtain r ps where x: "x = (r, ps)" by (cases x)
    from found [of r ps] that x
    have "r \<in> set rs" "m \<in> route_methods r" "route_match r p = Some ps" by simp_all
    from linear_scan_finds [OF this, of False] show ?thesis by (simp add: L_def)
  qed
  have none: "T = Inl (if \<exists>r \<in> set rs. route_match r p \<noteq> None then MethodNotAllowed else NotFound)
      \<and> L = Inl (if \<exists>r \<in> set rs. route_match r p \<noteq> None then MethodNotAllowed else NotFound)
      \<and> (\<forall>r \<in> set rs. route_match r p \<noteq> None \<longrightarrow> m \<notin> route_methods r)"
    if "T = Inl e" for e
  proof -
    have no: "\<forall>r \<in> set rs. route_match r p \<noteq> None \<longrightarrow> m \<notin> route_methods r"
    proof (intro ballI impI notI)
      fix r assume "r \<in> set rs" "route_match r p \<noteq> None" "m \<in> route_methods r"
      then obtain ps where "(r, ps) \<in> set C" using C by auto
      from scan_cands_finds [OF this \<open>m \<in> route_methods r\<close>, of None]
      obtain x where "T = Inr x" unfolding T by auto
      with that show False by simp
    qed
    then have "\<forall>(r, ps) \<in> set C. m \<notin> route_methods r"
      using C by auto
    from scan_cands_fails [OF this, of None] T
    have "T = Inl (if C \<noteq> [] then MethodNotAllowed else NotFound)" by simp
    moreover have "C \<noteq> [] \<longleftrightarrow> (\<exists>r \<in> set rs. route_match r p \<noteq> None)"
    proof
      assume "C \<noteq> []"
      then obtain r ps where "(r, ps) \<in> set C" by (cases C) auto
      with C show "\<exists>r \<in> set rs. route_match r p \<noteq> None" by auto
    next
      assume "\<exists>r \<in> set rs. route_match r p \<noteq> None"
      then obtain r ps where "(r, ps) \<in> set C" using C by auto
      then show "C \<noteq> []" by auto
    qed
    ultimately have "T = Inl (if \<exists>r \<in> set rs. route_match r p \<noteq> None
                             then MethodNotAllowed else NotFound)"
      by simp
    moreover from linear_scan_fails [OF no, of False]
    have "L = Inl (if \<exists>r \<in> set rs. route_match r p \<noteq> None then MethodNotAllowed else NotFound)"
      by (simp add: L_def)
    ultimately show ?thesis using no by simp
  qed
  have errs: "T = Inl e \<longleftrightarrow> L = Inl e" for e
  proof
    assume "T = Inl e"
    with none [of e] show "L = Inl e" by simp
  next
    assume l: "L = Inl e"
    show "T = Inl e"
    proof (cases T)
      case (Inl e')
      with none [of e'] l show ?thesis by simp
    next
      case (Inr x)
      with L_of_T [of x] l show ?thesis by auto
    qed
  qed
  have mna: "T = Inl MethodNotAllowed \<longleftrightarrow>
      (\<exists>r \<in> set rs. route_match r p \<noteq> None)
      \<and> (\<forall>r \<in> set rs. route_match r p \<noteq> None \<longrightarrow> m \<notin> route_methods r)"
  proof
    assume "T = Inl MethodNotAllowed"
    with none [of MethodNotAllowed] show "(\<exists>r \<in> set rs. route_match r p \<noteq> None)
      \<and> (\<forall>r \<in> set rs. route_match r p \<noteq> None \<longrightarrow> m \<notin> route_methods r)"
      by (auto split: if_splits)
  next
    assume a: "(\<exists>r \<in> set rs. route_match r p \<noteq> None)
      \<and> (\<forall>r \<in> set rs. route_match r p \<noteq> None \<longrightarrow> m \<notin> route_methods r)"
    show "T = Inl MethodNotAllowed"
    proof (cases T)
      case (Inl e)
      with none [of e] a show ?thesis by auto
    next
      case (Inr x)
      obtain r ps where "x = (r, ps)" by (cases x)
      with Inr found [of r ps] a show ?thesis by auto
    qed
  qed
  have nf: "T = Inl NotFound \<longleftrightarrow> (\<forall>r \<in> set rs. route_match r p = None)"
  proof
    assume "T = Inl NotFound"
    with none [of NotFound] show "\<forall>r \<in> set rs. route_match r p = None"
      by (auto split: if_splits)
  next
    assume a: "\<forall>r \<in> set rs. route_match r p = None"
    show "T = Inl NotFound"
    proof (cases T)
      case (Inl e)
      with none [of e] a show ?thesis by auto
    next
      case (Inr x)
      obtain r ps where "x = (r, ps)" by (cases x)
      with Inr found [of r ps] a show ?thesis by auto
    qed
  qed
  have uniq: "T = L"
    if u: "\<forall>r r'. r \<in> set rs \<and> r' \<in> set rs \<and> m \<in> route_methods r \<and> m \<in> route_methods r'
              \<and> route_match r p \<noteq> None \<and> route_match r' p \<noteq> None \<longrightarrow> r = r'"
  proof (cases T)
    case (Inl e)
    with errs [of e] show ?thesis by simp
  next
    case (Inr x)
    obtain r ps where x: "x = (r, ps)" by (cases x)
    from L_of_T [OF Inr] obtain r' ps' where l: "L = Inr (r', ps')" by auto
    from found [of r ps] Inr x
    have 1: "r \<in> set rs" "m \<in> route_methods r" "route_match r p = Some ps" by simp_all
    from linear_scan_found [of rs p m False r' ps'] l
    have 2: "r' \<in> set rs" "m \<in> route_methods r'" "route_match r' p = Some ps'"
      by (simp_all add: L_def)
    from u 1 2 have "r = r'" by auto
    with 1 2 have "ps = ps'" by simp
    with \<open>r = r'\<close> Inr x l show ?thesis by simp
  qed
  have static: "\<exists>r'. T = Inr (r', Map.empty) \<and> r' \<in> set rs \<and> route_path r' = route_path r"
    if r: "r \<in> set rs" "m \<in> route_methods r" "route_match r p \<noteq> None"
      "list_all plain_segment (split_path (route_path r))" for r
  proof -
    let ?vs = "split_path p"
    from assms(1) have w: "\<forall>a \<in> set rs. wf_template (route_path a)"
      by (auto simp: wf_routes_def list_all_iff)
    from r(4) have np: "\<forall>t \<in> set (split_path (route_path r)). \<not> is_param t"
      using plain_segment_not_param by (auto simp: list_all_iff)
    from r(1) w have "wf_template (route_path r)" by simp
    from route_match_canonical [OF this assms(2)] r(3) seg_match_plain [OF np]
    have eq: "split_path (route_path r) = ?vs"
      by (auto split: if_splits)
    with np have nv: "\<forall>v \<in> set ?vs. \<not> is_param v" by simp
    let ?xs = "filter (\<lambda>a. split_path (route_path a) = ?vs) rs"
    from cands_static_first [of "build_tree rs" ?vs Map.empty]
    obtain rest where "C = map (\<lambda>a. (a, Map.empty)) ?xs @ rest"
      unfolding C_def static_routes_build_tree [OF nv] by blast
    moreover have "r \<in> set ?xs" using r(1) eq by simp
    ultimately obtain r' where r': "r' \<in> set ?xs" "T = Inr (r', Map.empty)"
      using scan_cands_prefix [of r ?xs m Map.empty rest None] r(2) T by auto
    then have "r' \<in> set rs" and "split_path (route_path r') = split_path (route_path r)"
      using eq by simp_all
    moreover have "route_path r' = route_path r"
    proof -
      from r' w have "wf_template (route_path r')" by simp
      then have "route_path r' = canon (split_path (route_path r'))"
        unfolding wf_template_def by (rule conjunct1)
      also from r' eq have "\<dots> = canon (split_path (route_path r))" by simp
      finally have 1: "route_path r' = canon (split_path (route_path r))" .
      from \<open>wf_template (route_path r)\<close>
      have 2: "route_path r = canon (split_path (route_path r))"
        unfolding wf_template_def by (rule conjunct1)
      from 1 2 show ?thesis by (rule trans_sym)
    qed
    ultimately show ?thesis using r'(2) by blast
  qed
  show ?thesis
    unfolding T_def [symmetric] L_def [symmetric]
  proof (intro conjI)
    show "\<forall>r ps. T = Inr (r, ps) \<longrightarrow>
            r \<in> set rs \<and> m \<in> route_methods r \<and> route_match r p = Some ps"
      using found by blast
    show "(\<exists>x. T = Inr x) \<longleftrightarrow> (\<exists>x. L = Inr x)"
      using T_of_L L_of_T by blast
    show "\<forall>e. T = Inl e \<longleftrightarrow> L = Inl e"
      using errs by blast
    show "T = Inl MethodNotAllowed \<longleftrightarrow>
         (\<exists>r \<in> set rs. route_match r p \<noteq> None)
         \<and> (\<forall>r \<in> set rs. route_match r p \<noteq> None \<longrightarrow> m \<notin> route_methods r)"
      by (rule mna)
    show "T = Inl NotFound \<longleftrightarrow> (\<forall>r \<in> set rs. route_match r p = None)"
      by (rule nf)
    show "(\<forall>r r'. r \<in> set rs \<and> r' \<in> set rs \<and> m \<in> route_methods r \<and> m \<in> route_methods r'
              \<and> route_match r p \<noteq> None \<and> route_match r' p \<noteq> None \<longrightarrow> r = r')
         \<longrightarrow> T = L"
      using uniq by blast
    show "\<forall>r. r \<in> set rs \<and> m \<in> route_methods r \<and> route_match r p \<noteq> None
              \<and> list_all plain_segment (split_path (route_path r))
         \<longrightarrow> (\<exists>r'. T = Inr (r', Map.empty)
                   \<and> r' \<in> set rs \<and> route_path r' = route_path r)"
      using static by blast
  qed
qed

text \<open>
  The refinement at a tie: \<open>/users/{id}\<close> registered before \<open>/users/me\<close>,
  and the request \<open>GET /users/me\<close>.
\<close>

theorem radix_search_refines_linear_scan_witness:
  "wf_routes [\<lparr>route_path = ''/users/{id}'', route_handler = 2,
                route_methods = {''GET''}, route_name = None\<rparr>,
              \<lparr>route_path = ''/users/me'', route_handler = 1,
                route_methods = {''GET''}, route_name = None\<rparr>]
   \<and> wf_path ''/users/me''
   \<and> (\<exists>r'. tree_search
              (build_tree [\<lparr>route_path = ''/users/{id}'', route_handler = 2,
                              route_methods = {''GET''}, route_name = None\<rparr>,
                           \<lparr>route_path = ''/users/me'', route_handler = 1,
                              route_methods = {''GET''}, route_name = None\<rparr>])
              ''/users/me'' ''GET'' = Inr (r', Map.empty)
          \<and> route_path r' = ''/users/me'')"
proof -
  let ?uid = "\<lparr>route_path = ''/users/{id}'', route_handler = 2,
                route_methods = {''GET''}, route_name = None\<rparr>"
  let ?me = "\<lparr>route_path = ''/users/me'', route_handler = 1,
               route_methods = {''GET''}, route_name = None\<rparr>"
  have w: "wf_routes [?uid, ?me]" by code_simp
  have p: "wf_path ''/users/me''" by code_simp
  have s: "list_all plain_segment (split_path (route_path ?me))" by code_simp
  have "case route_match ?me ''/users/me'' of None \<Rightarrow> False | Some ps \<Rightarrow> True"
    by code_simp
  then have m: "route_match ?me ''/users/me'' \<noteq> None"
    by (simp split: option.splits)
  have "?me \<in> set [?uid, ?me] \<and> ''GET'' \<in> route_methods ?me" by simp
  with radix_search_refines_linear_scan [OF w p, of "''GET''"] s m
  have "\<exists>r'. tree_search (build_tree [?uid, ?me]) ''/users/me'' ''GET'' = Inr (r', Map.empty)
          \<and> r' \<in> set [?uid, ?me] \<and> route_path r' = route_path ?me"
    by blast
  with w p show ?thesis by auto
qed

text \<open>
  Outside these conditions the search and the linear scan differ, so claim C1
  does not hold for every route set and request. With \<open>GET /users/me\<close>
  registered, the path \<open>/users/me/\<close> is found by the tree, which drops empty
  segments, and is not matched by the route's pattern. With \<open>/users/{id}\<close>
  registered before \<open>/users/me\<close>, the path \<open>/users/me\<close> resolves to the
  static route in the tree and to the parametric one in the linear scan: the
  static route wins in the tree, the first registered in the scan. A
  \<open>path\<close> parameter spans several segments for the pattern and one for the
  tree. Two routes \<open>/u/{id:int}\<close> and \<open>/u/{name}\<close> share one parametric
  child, which keeps the text of the first, so \<open>/u/abc\<close> is not found by the
  tree although the second route matches it.
\<close>

theorem radix_search_differs_from_linear_scan_counterexample:
  "(case Route ''/users/me'' 1 {''GET''} None of
      Inl e \<Rightarrow> False
    | Inr me \<Rightarrow>
        (case tree_search (build_tree [me]) ''/users/me/'' ''GET'' of
           Inl e \<Rightarrow> False
         | Inr (r, ps) \<Rightarrow> route_path r = ''/users/me'')
        \<and> (case linear_scan [me] ''/users/me/'' ''GET'' False of
             Inl e \<Rightarrow> e = NotFound
           | Inr found \<Rightarrow> False)
        \<and> (case Route ''/users/{id}'' 2 {''GET''} None of
             Inl e \<Rightarrow> False
           | Inr uid \<Rightarrow>
               (case tree_search (build_tree [uid, me]) ''/users/me'' ''GET'' of
                  Inl e \<Rightarrow> False
                | Inr (r, ps) \<Rightarrow> route_path r = ''/users/me'' \<and> ps ''id'' = None)
               \<and> (case linear_scan [uid, me] ''/users/me'' ''GET'' False of
                    Inl e \<Rightarrow> False
                  | Inr (r, ps) \<Rightarrow>
                      route_path r = ''/users/{id}'' \<and> ps ''id'' = Some (PStr ''me''))))
   \<and> (case Route ''/files/{p:path}'' 3 {''GET''} None of
        Inl e \<Rightarrow> False
      | Inr files \<Rightarrow>
          (case tree_search (build_tree [files]) ''/files/a/b'' ''GET'' of
             Inl e \<Rightarrow> e = NotFound
           | Inr found \<Rightarrow> False)
          \<and> (case linear_scan [files] ''/files/a/b'' ''GET'' False of
               Inl e \<Rightarrow> False
             | Inr (r, ps) \<Rightarrow> ps ''p'' = Some (PStr ''a/b'')))
   \<and> (case Route ''/u/{id:int}'' 4 {''GET''} None of
        Inl e \<Rightarrow> False
      | Inr by_id \<Rightarrow>
          (case Route ''/u/{name}'' 5 {''GET''} None of
             Inl e \<Rightarrow> False
           | Inr by_name \<Rightarrow>
               (case tree_search (build_tree [by_id, by_name]) ''/u/abc'' ''GET'' of
                  Inl e \<Rightarrow> e = NotFound
                | Inr found \<Rightarrow> False)
               \<and> (case linear_scan [by_id, by_name] ''/u/abc'' ''GET'' False of
                    Inl e \<Rightarrow> False
                  | Inr (r, ps) \<Rightarrow>
                      route_path r = ''/u/{name}'' \<and> ps ''name'' = Some (PStr ''abc''))))"
  by code_simp

subsection \<open>Router: lookups after include_router and add_route\<close>

text \<open>
  Claim C2 fails on the code. \<open>add_route\<close> clears the dirty flag that
  \<open>include_router\<close> has set, although the tree it has just extended does not
  hold the routes of the included router. A child router with \<open>GET /bar\<close> is
  included under \<open>/foo\<close>, then \<open>GET /x\<close> is added to the parent: the
  flattened route list holds \<open>/x\<close> and \<open>/foo/bar\<close>, the lookup of \<open>/x\<close>
  succeeds, and the lookup of \<open>/foo/bar\<close> fails with \<open>NotFound\<close>. Without the
  \<open>add_route\<close> the same lookup finds the child's route.
\<close>

theorem router_add_route_after_include_loses_subroutes:
  "(case add_route (new_router []) ''/bar'' 7 (Some [''GET'']) None of
      Inl e \<Rightarrow> False
    | Inr (r, child) \<Rightarrow>
        (case add_route (include_router (new_router []) child ''/foo'') ''/x'' 8
                (Some [''GET'']) None of
           Inl e \<Rightarrow> False
         | Inr (r', parent) \<Rightarrow>
             (case all_routes parent of
                Inl e \<Rightarrow> False
              | Inr rs \<Rightarrow> map route_path rs = [''/x'', ''/foo/bar''])
             \<and> (case fst (router_match parent ''/foo/bar'' ''GET'') of
                  Inl e \<Rightarrow> e = NotFound
                | Inr found \<Rightarrow> False)
             \<and> (case fst (router_match parent ''/x'' ''GET'') of
                  Inl e \<Rightarrow> False
                | Inr (found, ps) \<Rightarrow> route_path found = ''/x'')
             \<and> (case fst (router_match (include_router (new_router []) child ''/foo'')
                             ''/foo/bar'' ''GET'') of
                  Inl e \<Rightarrow> False
                | Inr (found, ps) \<Rightarrow>
                    route_path found = ''/foo/bar'' \<and> route_handler found = 7)))"
  by code_simp

text \<open>The failing lookup on its own.\<close>

theorem router_add_route_after_include_loses_subroutes_witness:
  "\<exists>r child r' parent.
      add_route (new_router []) ''/bar'' 7 (Some [''GET'']) None = Inr (r, child)
    \<and> add_route (include_router (new_router []) child ''/foo'') ''/x'' 8 (Some [''GET'']) None
        = Inr (r', parent)
    \<and> fst (router_match parent ''/foo/bar'' ''GET'') = Inl NotFound"
proof (cases "add_route (new_router []) ''/bar'' 7 (Some [''GET'']) None")
  case (Inl e)
  with router_add_route_after_include_loses_subroutes show ?thesis by simp
next
  case (Inr x)
  obtain r child where x: "x = (r, child)" by (cases x)
  show ?thesis
  proof (cases "add_route (include_router (new_router []) child ''/foo'') ''/x'' 8
                  (Some [''GET'']) None")
    case (Inl e)
    with router_add_route_after_include_loses_subroutes Inr x show ?thesis by simp
  next
    case y: (Inr y)
    obtain r' parent where y': "y = (r', parent)" by (cases y)
    from router_add_route_after_include_loses_subroutes Inr x y y'
    have "case fst (router_match parent ''/foo/bar'' ''GET'') of
            Inl e \<Rightarrow> e = NotFound | Inr found \<Rightarrow> False"
      by simp
    then have "fst (router_match parent ''/foo/bar'' ''GET'') = Inl NotFound"
      by (simp split: sum.splits)
    with Inr x y y' show ?thesis by simp
  qed
qed

subsection \<open>Request body: the size cap\<close>


lemma read_chunks_whole:
  assumes "fst (read_chunks cap msgs chunks total_size) = Inr cs"
    and "total_size = int (length (concat chunks))"
  shows "concat cs = concat chunks @ request_body msgs
           \<and> (0 < cap \<longrightarrow> total_size \<le> cap \<longrightarrow> int (length (concat cs)) \<le> cap)"
  using assms
proof (induction cap msgs chunks total_size arbitrary: cs rule: read_chunks.induct)
  case (1 cap chunks total_size)
  then show ?case by simp
next
  case (2 cap b more_body rest chunks total_size)
  show ?case
  proof (cases "b = []")
    case True
    show ?thesis
    proof (cases more_body)
      case more: True
      from "2.prems" True more
      have "fst (read_chunks cap rest chunks total_size) = Inr cs" by simp
      from "2.IH"(2) [OF _ more this "2.prems"(2)] True more
      show ?thesis by auto
    next
      case False
      with "2.prems" True show ?thesis by simp
    qed
  next
    case b: False
    have not_over: "\<not> (0 < cap \<and> cap < total_size + int (length b))"
      using "2.prems"(1) b by (auto simp: Let_def split: if_splits)
    show ?thesis
    proof (cases more_body)
      case more: True
      from "2.prems"(1) b more not_over
      have r: "fst (read_chunks cap rest (chunks @ [b]) (total_size + int (length b))) = Inr cs"
        by (simp add: Let_def)
      have t: "total_size + int (length b) = int (length (concat (chunks @ [b])))"
        using "2.prems"(2) by simp
      from "2.IH"(1) [OF b refl _ more r t] not_over
      have "concat cs = concat (chunks @ [b]) @ request_body rest
        \<and> (0 < cap \<longrightarrow> total_size + int (length b) \<le> cap \<longrightarrow> int (length (concat cs)) \<le> cap)"
        by auto
      with more not_over show ?thesis by auto
    next
      case False
      with "2.prems" b not_over have "cs = chunks @ [b]"
        by (auto simp: Let_def split: if_splits)
      with False not_over "2.prems"(2) show ?thesis by auto
    qed
  qed
qed




text \<open>A read that returns gives the whole body, within the cap when it is enabled.\<close>

lemma body_returns_whole:
  assumes "cached_body r = None" and "\<not> body_consumed r" and "fst (body r) = Inr bs"
  shows "bs = request_body (receive r) \<and> (0 < max_body_size r \<longrightarrow> int (length bs) \<le> max_body_size r)"
proof -
  obtain res rest where rc: "read_chunks (max_body_size r) (receive r) [] 0 = (res, rest)"
    by (cases "read_chunks (max_body_size r) (receive r) [] 0") auto
  from assms rc obtain cs where cs: "res = Inr cs" "bs = concat cs"
    by (auto simp: body_def split: sum.splits if_splits option.splits)
  from read_chunks_whole [of "max_body_size r" "receive r" "[]" 0 cs] rc cs
  show ?thesis by auto
qed

subsection \<open>Secret keys: where the length is checked\<close>

text \<open>
  Claim C7 as stated fails: the token codec is constructed from a key of five
  characters, also through the session middleware of an application whose own
  key is long enough.
\<close>

theorem secure_cookie_short_key_counterexample:
  "length ''short'' < MIN_SECRET_KEY_LENGTH
   \<and> SecureCookie ''short'' = Inr \<lparr>sc_secret_key = ''short''\<rparr>
   \<and> (case Thor False ''Thor API'' ''1.0.0'' (Some ''0123456789abcdef'') of
        Inl e \<Rightarrow> False
      | Inr app \<Rightarrow>
          (case add_middleware app ''SessionMiddleware'' (Some ''short'') of
             Inl e \<Rightarrow> False
           | Inr app' \<Rightarrow> session_middleware_codec ''short'' = Inr \<lparr>sc_secret_key = ''short''\<rparr>))"
  by (simp add: SecureCookie_def Thor_def add_middleware_def session_middleware_codec_def
      MIN_SECRET_KEY_LENGTH_def SECRET_REQUIRED_MIDDLEWARE_def)

text \<open>
  Claim C7, amended: constructing the application fails with \<open>ValueError\<close>
  exactly when a secret key is given and it is shorter than 16 characters, and
  an application that is constructed keeps the key it was given; constructing
  the token codec \<open>SecureCookie\<close> succeeds for every key.
\<close>

theorem secret_key_length_checked_by_app:
  "(Thor dbg ttl ver key = Inl ValueError \<longleftrightarrow> (\<exists>k. key = Some k \<and> length k < 16))
   \<and> (\<forall>app. Thor dbg ttl ver key = Inr app \<longrightarrow>
          secret_key app = key \<and> (\<forall>k. key = Some k \<longrightarrow> 16 \<le> length k))
   \<and> (\<exists>app. Thor dbg ttl ver key = Inr app \<or> Thor dbg ttl ver key = Inl ValueError)
   \<and> SecureCookie k' = Inr \<lparr>sc_secret_key = k'\<rparr>"
  by (cases key) (auto simp: Thor_def SecureCookie_def MIN_SECRET_KEY_LENGTH_def)

theorem secret_key_length_checked_by_app_witness:
  "Thor False ''Thor API'' ''1.0.0'' (Some ''short'') = Inl ValueError
   \<and> Thor False ''Thor API'' ''1.0.0'' (Some ''0123456789abcdef'') \<noteq> Inl ValueError
   \<and> SecureCookie ''short'' = Inr \<lparr>sc_secret_key = ''short''\<rparr>"
  using secret_key_length_checked_by_app [of False "''Thor API''" "''1.0.0''" "Some ''short''" "''short''"]
    secret_key_length_checked_by_app [of False "''Thor API''" "''1.0.0''" "Some ''0123456789abcdef''" "''short''"]
  by simp

subsection \<open>CSRF middleware: validation\<close>

lemma csrf_forbidden_messages:
  "csrf_forbidden =
     [Start 403 [(''content-type'', ''application/json; charset=utf-8'')],
      Body (Json (JObj [(''error'', JStr ''CSRF token missing or invalid''),
                        (''status_code'', JInt 403)]))]"
  by (simp add: csrf_forbidden_def json_response_def build_headers_def)



text \<open>A matching token lets the request through (scenario S2 of the specification).\<close>

lemma csrf_accepts_matching_token:
  assumes "\<not> excluded mw rq" and "submitted_token mw rq = Inr (Some t)" and "t \<noteq> []"
    and "t = cookie_token mw fresh rq"
  shows "csrf_process mw app fresh rq =
           Inr \<lparr>sent = map (send_with_csrf mw t) (app (Some t)),
                app_called = True, scope_csrf_token = Some t\<rparr>"
  using assms by (simp add: csrf_process_def Let_def truthy_def tokens_match_def)

subsection \<open>CSRF middleware: the cookie on the response\<close>

lemma set_cookie_headers_send_with_csrf:
  "set_cookie_headers (map (send_with_csrf mw tok) msgs) \<noteq> [] \<longleftrightarrow> (\<exists>st hs. Start st hs \<in> set msgs)"
proof (induction msgs)
  case Nil
  then show ?case by simp
next
  case (Cons m msgs)
  then show ?case
    by (cases m) (auto simp: send_with_csrf_def)
qed

text \<open>
  Claim C6 fails on the code: the 403 response is sent through the caller's
  \<open>send\<close>, before \<open>send_with_csrf\<close> exists. A POST without cookie and without
  token is answered by a start message whose only header is the content type,
  while the same request as a GET gets the cookie on its start message.
\<close>

theorem csrf_forbidden_response_has_no_set_cookie:
  "csrf_process CSRFMiddleware (\<lambda>tok. [Start 200 [], Body (Raw ''ok'')]) ''fresh-token''
     \<lparr>rq_method = ''POST'', rq_path = ''/submit'', rq_headers = [], rq_form = Inr Map.empty\<rparr>
   = Inr \<lparr>sent = [Start 403 [(''content-type'', ''application/json; charset=utf-8'')],
                  Body (Json (JObj [(''error'', JStr ''CSRF token missing or invalid''),
                                    (''status_code'', JInt 403)]))],
          app_called = False,
          scope_csrf_token = Some ''fresh-token''\<rparr>
   \<and> set_cookie_headers
         [Start 403 [(''content-type'', ''application/json; charset=utf-8'')],
          Body (Json (JObj [(''error'', JStr ''CSRF token missing or invalid''),
                            (''status_code'', JInt 403)]))] = []
   \<and> csrf_process CSRFMiddleware (\<lambda>tok. [Start 200 [], Body (Raw ''ok'')]) ''fresh-token''
     \<lparr>rq_method = ''GET'', rq_path = ''/submit'', rq_headers = [], rq_form = Inr Map.empty\<rparr>
   = Inr \<lparr>sent = [Start 200 [(''set-cookie'', ''thor_csrf=fresh-token; Path=/; Secure; SameSite=Lax'')],
                  Body (Raw ''ok'')],
          app_called = True,
          scope_csrf_token = Some ''fresh-token''\<rparr>"
  by (simp add: csrf_process_def CSRFMiddleware_def excluded_def cookie_token_def get_cookie_def
      cookies_def headers_def parse_cookies_def truthy_def SAFE_METHODS_def submitted_token_def
      get_header_def get_form_token_def content_type_def csrf_forbidden_messages
      send_with_csrf_def format_set_cookie_def to_header_string_def CookieOptions_def
      capitalize_def DEFAULT_COOKIE_NAME_def)

text \<open>The start message of that 403 response carries no \<open>set-cookie\<close> header.\<close>

theorem csrf_forbidden_response_has_no_set_cookie_witness:
  "\<exists>res. csrf_process CSRFMiddleware (\<lambda>tok. [Start 200 [], Body (Raw ''ok'')]) ''fresh-token''
            \<lparr>rq_method = ''POST'', rq_path = ''/submit'', rq_headers = [],
             rq_form = Inr Map.empty\<rparr> = Inr res
     \<and> set_cookie_headers (sent res) = [] \<and> \<not> app_called res"
  using csrf_forbidden_response_has_no_set_cookie by simp

subsection \<open>CSRF middleware: the form field\<close>



subsection \<open>Lifespan: the order of shutdown\<close>

text \<open>
  Claim C9 fails on the code. The shutdown handlers run when the
  \<open>async with\<close> block is left, that is after the \<open>return\<close> that follows the
  sending of \<open>lifespan.shutdown.complete\<close>. With one startup handler \<open>start\<close>,
  one shutdown handler \<open>stop\<close>, one request in flight and the messages
  \<open>lifespan.startup\<close>, \<open>lifespan.shutdown\<close>, the completion message is the
  fifth event and the handler the sixth.
\<close>

theorem lifespan_shutdown_complete_precedes_handlers:
  "handle_lifespan
     \<lparr>startup_handlers = [\<lparr>h_name = ''start'', h_raises = False\<rparr>],
      shutdown_handlers = [\<lparr>h_name = ''stop'', h_raises = False\<rparr>],
      context_manager = None\<rparr>
     1 [LifespanStartup, LifespanShutdown]
   = ([RunStartup ''start'', Send ''lifespan.startup.complete'', MarkShuttingDown,
       AwaitQuiescent, Send ''lifespan.shutdown.complete'', RunShutdown ''stop''],
      Returned)"
  by (simp add: handle_lifespan_def startup_def shutdown_def drain_requests_def)

theorem lifespan_shutdown_complete_precedes_handlers_witness:
  "\<exists>es. fst (handle_lifespan
            \<lparr>startup_handlers = [\<lparr>h_name = ''start'', h_raises = False\<rparr>],
             shutdown_handlers = [\<lparr>h_name = ''stop'', h_raises = False\<rparr>],
             context_manager = None\<rparr>
            1 [LifespanStartup, LifespanShutdown]) = es
     \<and> index_of (Send ''lifespan.shutdown.complete'') es = Some 4
     \<and> index_of (RunShutdown ''stop'') es = Some 5"
  using lifespan_shutdown_complete_precedes_handlers by simp

text \<open>
  In general: when the loop returns and no handler raises, the trace ends with
  the completion message followed by all the shutdown handlers, in reverse
  order of registration.
\<close>

lemma run_handlers_no_raise:
  assumes "\<forall>h \<in> set hs. \<not> h_raises h"
  shows "run_handlers ev hs = (map (\<lambda>h. ev (h_name h)) hs, None)"
  using assms by (induction hs) auto

lemma lifespan_loop_returned:
  assumes "lifespan_loop inflight msgs = (es, True)"
  shows "\<exists>pre. es = pre @ [Send ''lifespan.shutdown.complete'']"
  using assms
proof (induction inflight msgs arbitrary: es rule: lifespan_loop.induct)
  case (1 inflight)
  then show ?case by simp
next
  case (2 inflight ms)
  then show ?case by (auto split: prod.splits)
next
  case (3 inflight ms)
  then show ?case by auto
next
  case (4 inflight t ms)
  then show ?case by simp
qed

lemma lifespan_shutdown_handlers_run_last:
  assumes "context_manager ls = None"
    and "\<forall>h \<in> set (startup_handlers ls). \<not> h_raises h"
    and "\<forall>h \<in> set (shutdown_handlers ls). \<not> h_raises h"
    and "handle_lifespan ls inflight msgs = (es, Returned)"
  shows "\<exists>pre. es = pre @ [Send ''lifespan.shutdown.complete'']
                    @ map (\<lambda>h. RunShutdown (h_name h)) (rev (shutdown_handlers ls))"
proof -
  have su: "startup ls = (map (\<lambda>h. RunStartup (h_name h)) (startup_handlers ls), None)"
    using assms(2) by (simp add: startup_def run_handlers_no_raise)
  have sd: "shutdown ls
      = (map (\<lambda>h. RunShutdown (h_name h)) (rev (shutdown_handlers ls)), None)"
    using assms(3) by (simp add: shutdown_def run_handlers_no_raise)
  obtain es2 returned where l: "lifespan_loop inflight msgs = (es2, returned)"
    by (cases "lifespan_loop inflight msgs") auto
  from assms(1,4) su sd l have r: returned
    and es: "es = map (\<lambda>h. RunStartup (h_name h)) (startup_handlers ls) @ es2
               @ map (\<lambda>h. RunShutdown (h_name h)) (rev (shutdown_handlers ls))"
    by (auto simp: handle_lifespan_def split: if_splits)
  from l r have "lifespan_loop inflight msgs = (es2, True)" by simp
  from lifespan_loop_returned [OF this]
  obtain pre where "es2 = pre @ [Send ''lifespan.shutdown.complete'']" ..
  with es show ?thesis by simp
qed

subsection \<open>Rate limiter: the value of Retry-After\<close>





end
